theory Spec2Isabelle
  imports Complex_Main "HOL-Library.Word"
begin

unbundle bit_operations_syntax

section \<open>Configuration (esp32/src/main.cpp, lines 48-62)\<close>

definition SAMPLE_RATE :: nat where "SAMPLE_RATE = 16000"
definition BITS_PER_SAMPLE :: nat where "BITS_PER_SAMPLE = 16"
definition CHANNELS :: nat where "CHANNELS = 1"
definition BYTES_PER_SAMPLE :: nat where "BYTES_PER_SAMPLE = BITS_PER_SAMPLE div 8"
definition I2S_READ_BUF_SIZE :: nat where "I2S_READ_BUF_SIZE = 1024"
definition MAX_RECORDING_SECS :: nat where "MAX_RECORDING_SECS = 15"
definition MAX_AUDIO_BYTES :: nat where
  "MAX_AUDIO_BYTES = SAMPLE_RATE * BYTES_PER_SAMPLE * MAX_RECORDING_SECS"
definition WAV_HEADER_SIZE :: nat where "WAV_HEADER_SIZE = 44"

text \<open>The size of the allocation made in \<open>setup()\<close>:
  \<open>ps_malloc(MAX_AUDIO_BYTES + WAV_HEADER_SIZE)\<close>.\<close>

definition BUFFER_SIZE :: nat where "BUFFER_SIZE = MAX_AUDIO_BYTES + WAV_HEADER_SIZE"

lemmas config = SAMPLE_RATE_def BITS_PER_SAMPLE_def CHANNELS_def BYTES_PER_SAMPLE_def
  I2S_READ_BUF_SIZE_def MAX_RECORDING_SECS_def MAX_AUDIO_BYTES_def WAV_HEADER_SIZE_def
  BUFFER_SIZE_def

section \<open>Data model\<close>

text \<open>The target is the ESP32-S3: \<open>size_t\<close> and \<open>uint32_t\<close> are 32 bits wide and
  wrap around. C \<open>int\<close> values handed over by the libraries (status code, declared
  length) are kept as integers; where the source converts one to \<open>size_t\<close> the model
  writes \<open>word_of_int\<close>.\<close>

type_synonym byte = "8 word"
type_synonym size_t = "32 word"

text \<open>\<open>audioBuffer\<close>: the contents of the allocation, by offset from its base.\<close>

type_synonym buffer = "nat \<Rightarrow> byte"

datatype level = LOW | HIGH

text \<open>The lines printed on the serial console, one constructor per format string.\<close>

datatype message =
    RecStarted
  | BufferFull
  | RecStopped size_t
  | WifiNotConnected
  | Sending size_t
  | ResponseReceived int
  | AudioResponse int
  | ResponseTooLarge
  | ServerResponse string
  | HttpError int
  | Playing size_t
  | PlayDone
  | TooShort

text \<open>What the firmware does to the outside world, in the order it does it.\<close>

datatype event =
    Led level
  | Serial message
  | HttpPost "byte list"
  | HttpEnd
  | I2sWrite "byte list"
  | I2sZeroDma
  | Delay nat

text \<open>Ways a run of the C code can fail to produce a next state: a copy outside the
  allocation (undefined behaviour in C), and a receive loop that is still spinning when
  the observed polls of the stream are used up.\<close>

datatype fault = OutOfBounds | Unfinished

record state =
  audioBuffer :: buffer
  audioBufferPos :: size_t
  isRecording :: bool
  lastButtonState :: level
  trace :: "event list"

definition emit :: "event \<Rightarrow> state \<Rightarrow> state" where
  "emit e st = st\<lparr>trace := trace st @ [e]\<rparr>"

text \<open>\<open>memcpy(audioBuffer + off, src, n)\<close> and \<open>readBytes(audioBuffer + off, n)\<close>:
  a copy of \<open>bs\<close> to offset \<open>off\<close>, defined only inside the allocation.\<close>

definition buffer_write :: "buffer \<Rightarrow> nat \<Rightarrow> byte list \<Rightarrow> fault + buffer" where
  "buffer_write buf off bs =
     (if off + length bs \<le> BUFFER_SIZE
      then Inr (\<lambda>i. if off \<le> i \<and> i < off + length bs then bs ! (i - off) else buf i)
      else Inl OutOfBounds)"

section \<open>WAV header (lines 143-178)\<close>

definition byte_of_char :: "char \<Rightarrow> byte" where
  "byte_of_char c = of_nat (of_char c)"

definition writeWavHeader :: "buffer \<Rightarrow> 32 word \<Rightarrow> buffer" where
  "writeWavHeader buf dataSize =
     (let fileSize = dataSize + of_nat WAV_HEADER_SIZE - 8;
          byteRate = (of_nat (SAMPLE_RATE * CHANNELS * BYTES_PER_SAMPLE) :: 32 word);
          blockAlign = (of_nat (CHANNELS * BYTES_PER_SAMPLE) :: 16 word);
          sampleRate = (of_nat SAMPLE_RATE :: 32 word)
      in buf
        (0 := byte_of_char CHR ''R'', 1 := byte_of_char CHR ''I'',
         2 := byte_of_char CHR ''F'', 3 := byte_of_char CHR ''F'',
         4 := ucast fileSize,
         5 := ucast (drop_bit 8 fileSize),
         6 := ucast (drop_bit 16 fileSize),
         7 := ucast (drop_bit 24 fileSize),
         8 := byte_of_char CHR ''W'', 9 := byte_of_char CHR ''A'',
         10 := byte_of_char CHR ''V'', 11 := byte_of_char CHR ''E'',
         12 := byte_of_char CHR ''f'', 13 := byte_of_char CHR ''m'',
         14 := byte_of_char CHR ''t'', 15 := byte_of_char CHR '' '',
         16 := 16, 17 := 0, 18 := 0, 19 := 0,
         20 := 1, 21 := 0,
         22 := of_nat CHANNELS, 23 := 0,
         24 := ucast sampleRate,
         25 := ucast (drop_bit 8 sampleRate),
         26 := ucast (drop_bit 16 sampleRate),
         27 := ucast (drop_bit 24 sampleRate),
         28 := ucast byteRate,
         29 := ucast (drop_bit 8 byteRate),
         30 := ucast (drop_bit 16 byteRate),
         31 := ucast (drop_bit 24 byteRate),
         32 := ucast blockAlign, 33 := 0,
         34 := of_nat BITS_PER_SAMPLE, 35 := 0,
         36 := byte_of_char CHR ''d'', 37 := byte_of_char CHR ''a'',
         38 := byte_of_char CHR ''t'', 39 := byte_of_char CHR ''a'',
         40 := ucast dataSize,
         41 := ucast (drop_bit 8 dataSize),
         42 := ucast (drop_bit 16 dataSize),
         43 := ucast (drop_bit 24 dataSize)))"

subsection \<open>The consumer's side of the container contract\<close>

definition le32 :: "byte \<Rightarrow> byte \<Rightarrow> byte \<Rightarrow> byte \<Rightarrow> 32 word" where
  "le32 b0 b1 b2 b3 =
     ucast b0 OR push_bit 8 (ucast b1) OR push_bit 16 (ucast b2) OR push_bit 24 (ucast b3)"

definition le32_at :: "byte list \<Rightarrow> nat \<Rightarrow> 32 word" where
  "le32_at bs i = le32 (bs ! i) (bs ! (i + 1)) (bs ! (i + 2)) (bs ! (i + 3))"

definition tag_at :: "byte list \<Rightarrow> nat \<Rightarrow> string \<Rightarrow> bool" where
  "tag_at bs i t = (take (length t) (drop i bs) = map byte_of_char t)"

datatype header_error = TooShortForHeader | BadTag

text \<open>Modelled from the spec: \<open>validateHeader\<close> is the duty of the receiving hub, whose
  code is not part of the firmware source. Section 4.1: it rejects payloads shorter than
  \<open>header_size\<close>, verifies the two fixed tag pairs (\<open>RIFF\<close>/\<open>WAVE\<close> and
  \<open>fmt \<close>/\<open>data\<close>) and extracts the declared payload length, the little-endian field
  at bytes 40-43.\<close>

definition validateHeader :: "byte list \<Rightarrow> header_error + 32 word" where
  "validateHeader bs =
     (if length bs < WAV_HEADER_SIZE then Inl TooShortForHeader
      else if \<not> (tag_at bs 0 ''RIFF'' \<and> tag_at bs 8 ''WAVE'') then Inl BadTag
      else if \<not> (tag_at bs 12 ''fmt '' \<and> tag_at bs 36 ''data'') then Inl BadTag
      else Inr (le32_at bs 40))"

text \<open>The bytes that travel: the first \<open>n\<close> bytes of the buffer.\<close>

definition buffer_bytes :: "buffer \<Rightarrow> nat \<Rightarrow> byte list" where
  "buffer_bytes buf n = map buf [0..<n]"

section \<open>Single-precision arithmetic of the duration check\<close>

text \<open>\<open>durationSecs\<close> is a C \<open>float\<close> and \<open>0.3\<close> a C \<open>double\<close> literal. Their
  values are rationals; every operation rounds its exact result to the nearest value
  with \<open>p\<close> significant bits, ties to even (IEEE 754 binary32 has \<open>p = 24\<close>,
  binary64 has \<open>p = 53\<close>). The values that occur here are far from the subnormal and
  overflow ranges, so the exponent is not clamped.\<close>

fun bit_length :: "nat \<Rightarrow> nat" where
  "bit_length n = (if n = 0 then 0 else Suc (bit_length (n div 2)))"

declare bit_length.simps [simp del]

text \<open>\<open>ilog2 x\<close> is the integer \<open>e\<close> with \<open>2^e \<le> x < 2^(e+1)\<close>, for \<open>x > 0\<close>.\<close>

definition ilog2 :: "rat \<Rightarrow> int" where
  "ilog2 x =
     (if 1 \<le> x then int (bit_length (nat \<lfloor>x\<rfloor>)) - 1
      else - int (bit_length (nat (\<lceil>1 / x\<rceil> - 1))))"

definition round_half_even :: "rat \<Rightarrow> int" where
  "round_half_even r =
     (let f = \<lfloor>r\<rfloor>; d = r - of_int f
      in if d < 1 / 2 then f
         else if 1 / 2 < d then f + 1
         else if even f then f else f + 1)"

definition fp_round :: "nat \<Rightarrow> rat \<Rightarrow> rat" where
  "fp_round p x =
     (if x = 0 then 0
      else let ulp = 2 powi (ilog2 \<bar>x\<bar> - (int p - 1))
           in sgn x * of_int (round_half_even (\<bar>x\<bar> / ulp)) * ulp)"

text \<open>\<open>(float)audioDataSize / (SAMPLE_RATE * BYTES_PER_SAMPLE)\<close>: the size and the
  \<open>int\<close> divisor are converted to \<open>float\<close>, the quotient is rounded to \<open>float\<close>.\<close>

definition durationSecs :: "size_t \<Rightarrow> rat" where
  "durationSecs audioDataSize =
     fp_round 24 (fp_round 24 (of_nat (unat audioDataSize))
                  / fp_round 24 (of_nat (SAMPLE_RATE * BYTES_PER_SAMPLE)))"

text \<open>\<open>durationSecs > 0.3\<close>: the \<open>float\<close> is promoted to \<open>double\<close> (exactly) and
  compared with the \<open>double\<close> nearest to 3/10.\<close>

definition meaningful :: "rat \<Rightarrow> bool" where
  "meaningful d = (fp_round 53 (3 / 10) < d)"

section \<open>Recording (lines 206-253)\<close>

definition startRecording :: "state \<Rightarrow> state" where
  "startRecording st =
     emit (Serial RecStarted)
       (emit (Led HIGH)
          (st\<lparr>audioBufferPos := of_nat WAV_HEADER_SIZE, isRecording := True\<rparr>))"

text \<open>What one call of \<open>i2s_read(I2S_MIC_PORT, readBuf, I2S_READ_BUF_SIZE, &bytesRead,
  portMAX_DELAY)\<close> meets: the driver's return code and the samples it holds. The call
  delivers at most \<open>I2S_READ_BUF_SIZE\<close> bytes of them.\<close>

record mic_read =
  esp_ok :: bool
  samples :: "byte list"

definition captureAudioChunk :: "mic_read \<Rightarrow> state \<Rightarrow> fault + state" where
  "captureAudioChunk m st =
     (if \<not> isRecording st then Inr st
      else
        let readBuf = take I2S_READ_BUF_SIZE (samples m);
            bytesRead = (of_nat (length readBuf) :: size_t)
        in if esp_ok m \<and> 0 < bytesRead then
             if audioBufferPos st + bytesRead \<le> of_nat (MAX_AUDIO_BYTES + WAV_HEADER_SIZE) then
               (case buffer_write (audioBuffer st) (unat (audioBufferPos st)) readBuf of
                  Inl f \<Rightarrow> Inl f
                | Inr b \<Rightarrow>
                    Inr (st\<lparr>audioBuffer := b, audioBufferPos := audioBufferPos st + bytesRead\<rparr>))
             else
               Inr (emit (Led LOW) ((emit (Serial BufferFull) st)\<lparr>isRecording := False\<rparr>))
           else Inr st)"

definition stopRecording :: "state \<Rightarrow> state" where
  "stopRecording st =
     (let st1 = emit (Led LOW) (st\<lparr>isRecording := False\<rparr>);
          audioDataSize = audioBufferPos st1 - of_nat WAV_HEADER_SIZE;
          st2 = emit (Serial (RecStopped audioDataSize)) st1
      in st2\<lparr>audioBuffer := writeWavHeader (audioBuffer st2) audioDataSize\<rparr>)"

text \<open>The cursor lies between the end of the reserved header and the end of the
  allocation.\<close>

definition in_bounds :: "state \<Rightarrow> bool" where
  "in_bounds st \<longleftrightarrow>
     WAV_HEADER_SIZE \<le> unat (audioBufferPos st) \<and> unat (audioBufferPos st) \<le> BUFFER_SIZE"

text \<open>The calls of \<open>captureAudioChunk\<close> made while the button is held, one per
  read of the microphone.\<close>

fun captures :: "mic_read list \<Rightarrow> state \<Rightarrow> fault + state" where
  "captures [] st = Inr st"
| "captures (m # ms) st =
     (case captureAudioChunk m st of Inl f \<Rightarrow> Inl f | Inr st' \<Rightarrow> captures ms st')"

text \<open>The bytes one read hands to \<open>captureAudioChunk\<close>.\<close>

definition delivered :: "mic_read \<Rightarrow> nat" where
  "delivered m = (if esp_ok m then length (take I2S_READ_BUF_SIZE (samples m)) else 0)"

section \<open>Playback (lines 324-350)\<close>

text \<open>The chunk loop of \<open>playAudio\<close>. \<open>i2s_write\<close> is called with \<open>portMAX_DELAY\<close>:
  it returns when all \<open>toWrite\<close> bytes are queued, so \<open>written = toWrite\<close>.\<close>

function play_chunks :: "buffer \<Rightarrow> size_t \<Rightarrow> size_t \<Rightarrow> event list" where
  "play_chunks buf offset totalBytes =
     (if offset < totalBytes
      then let toWrite = min 1024 (totalBytes - offset)
           in I2sWrite (map buf [unat offset..<unat offset + unat toWrite])
                # play_chunks buf (offset + toWrite) totalBytes
      else [])"
  by pat_completeness auto
termination
proof (relation "measure (\<lambda>(buf, offset, totalBytes). unat totalBytes - unat offset)")
  show "wf (measure (\<lambda>(buf, offset, totalBytes). unat totalBytes - unat offset))"
    by simp
next
  fix buf :: buffer and offset totalBytes toWrite :: size_t
  assume lt: "offset < totalBytes" and tw: "toWrite = min 1024 (totalBytes - offset)"
  have d: "unat (totalBytes - offset) = unat totalBytes - unat offset"
    using lt by (simp add: unat_sub word_less_nat_alt word_le_nat_alt)
  have pos: "0 < unat toWrite"
    using lt d by (simp add: tw min_def word_less_nat_alt word_le_nat_alt unat_gt_0 [symmetric])
  have le: "unat toWrite \<le> unat totalBytes - unat offset"
    using d by (simp add: tw min_def word_le_nat_alt)
  have "unat offset + unat toWrite < 2 ^ LENGTH(32)"
    using le lt unsigned_less [of totalBytes, where ?'a = nat] by (simp add: word_less_nat_alt)
  then have "unat (offset + toWrite) = unat offset + unat toWrite"
    using unat_add_lem [of offset toWrite] by simp
  with pos le lt
  show "((buf, offset + toWrite, totalBytes), (buf, offset, totalBytes))
          \<in> measure (\<lambda>(buf, offset, totalBytes). unat totalBytes - unat offset)"
    by (simp add: word_less_nat_alt)
qed

declare play_chunks.simps [simp del]

definition playAudio :: "size_t \<Rightarrow> state \<Rightarrow> state" where
  "playAudio totalBytes st =
     (let st1 = emit (Serial (Playing totalBytes)) st;
          st2 = st1\<lparr>trace := trace st1
                  @ play_chunks (audioBuffer st1) (of_nat WAV_HEADER_SIZE) totalBytes\<rparr>;
          st3 = emit I2sZeroDma st2
      in emit (Serial PlayDone) st3)"

section \<open>HTTP send and receive (lines 259-318)\<close>

text \<open>One poll of the response stream: what \<open>stream->available()\<close> returns (converted
  to \<open>size_t\<close>) and the bytes \<open>readBytes\<close> can get before its timeout.\<close>

record poll =
  available :: size_t
  incoming :: "byte list"

text \<open>What the server and the HTTP client library answer to the one POST.\<close>

record http_response =
  httpCode :: int
  contentType :: string
  getSize :: int
  stream :: "poll list"
  getString :: string

record network =
  wifiConnected :: bool
  response :: http_response

text \<open>Arduino's \<open>String::startsWith\<close>.\<close>

definition startsWith :: "string \<Rightarrow> string \<Rightarrow> bool" where
  "startsWith s p = (take (length p) s = p)"

text \<open>The receive loop \<open>while (bytesRead < responseLen)\<close>. It has no exit of its own
  other than its condition: when the observed polls run out first, the result is
  \<open>Unfinished\<close>.\<close>

fun read_response :: "int \<Rightarrow> poll list \<Rightarrow> size_t \<Rightarrow> state \<Rightarrow> fault + (size_t \<times> state)" where
  "read_response responseLen [] bytesRead st =
     (if bytesRead < word_of_int responseLen then Inl Unfinished else Inr (bytesRead, st))"
| "read_response responseLen (p # ps) bytesRead st =
     (if bytesRead < word_of_int responseLen then
        if available p \<noteq> 0 then
          let toRead = min (available p) (word_of_int responseLen - bytesRead);
              got = take (unat toRead) (incoming p)
          in case buffer_write (audioBuffer st) (unat bytesRead) got of
               Inl f \<Rightarrow> Inl f
             | Inr b \<Rightarrow>
                 read_response responseLen ps (bytesRead + of_nat (length got))
                   (st\<lparr>audioBuffer := b\<rparr>)
        else read_response responseLen ps bytesRead (emit (Delay 1) st)
      else Inr (bytesRead, st))"

definition http_end :: "state \<Rightarrow> fault + state" where
  "http_end st = Inr (emit (Led LOW) (emit HttpEnd st))"

definition sendAudioToServer :: "network \<Rightarrow> state \<Rightarrow> fault + state" where
  "sendAudioToServer net st =
     (if \<not> wifiConnected net then Inr (emit (Serial WifiNotConnected) st)
      else
        let totalSize = audioBufferPos st;
            st1 = emit (Led HIGH) (emit (Serial (Sending totalSize)) st);
            st2 = emit (HttpPost (buffer_bytes (audioBuffer st1) (unat totalSize))) st1;
            r = response net
        in if httpCode r = 200 then
             let st3 = emit (Serial (ResponseReceived (httpCode r))) st2;
                 responseLen = getSize r
             in if startsWith (contentType r) ''audio/wav'' \<and> int WAV_HEADER_SIZE < responseLen
                then
                  let st4 = emit (Serial (AudioResponse responseLen)) st3
                  in if responseLen \<le> int (MAX_AUDIO_BYTES + WAV_HEADER_SIZE) then
                       (case read_response responseLen (stream r) 0 st4 of
                          Inl f \<Rightarrow> Inl f
                        | Inr (bytesRead, st5) \<Rightarrow> http_end (playAudio bytesRead st5))
                     else http_end (emit (Serial ResponseTooLarge) st4)
                else http_end (emit (Serial (ServerResponse (getString r))) st3)
           else http_end (emit (Serial (HttpError (httpCode r))) st2))"

text \<open>The bytes one poll adds at most: \<open>readBytes\<close> is asked for no more than
  \<open>available()\<close> announced and gets no more than the stream has.\<close>

definition poll_yield :: "poll \<Rightarrow> nat" where
  "poll_yield p = min (unat (available p)) (length (incoming p))"

subsection \<open>Reading the trace\<close>

text \<open>An HTTP request leaves the device with \<open>http.POST\<close>; \<open>playAudio\<close> announces
  itself on the serial console before anything else.\<close>

fun is_post :: "event \<Rightarrow> bool" where
  "is_post (HttpPost bs) = True"
| "is_post e = False"

fun is_playback :: "event \<Rightarrow> bool" where
  "is_playback (Serial (Playing n)) = True"
| "is_playback e = False"

fun is_dac_write :: "event \<Rightarrow> bool" where
  "is_dac_write (I2sWrite bs) = True"
| "is_dac_write e = False"

definition posts :: "event list \<Rightarrow> nat" where
  "posts t = length (filter is_post t)"

definition playbacks :: "event list \<Rightarrow> nat" where
  "playbacks t = length (filter is_playback t)"

definition dac_writes :: "event list \<Rightarrow> nat" where
  "dac_writes t = length (filter is_dac_write t)"

section \<open>The main loop (lines 394-426)\<close>

text \<open>What one iteration of \<open>loop()\<close> reads from the outside.\<close>

record input =
  buttonState :: level
  mic :: mic_read
  net :: network

definition loop :: "input \<Rightarrow> state \<Rightarrow> fault + state" where
  "loop inp st =
     (let st1 = (if lastButtonState st = HIGH \<and> buttonState inp = LOW
                 then startRecording st else st);
          captured = (if buttonState inp = LOW \<and> isRecording st1
                      then captureAudioChunk (mic inp) st1 else Inr st1)
      in case captured of
           Inl f \<Rightarrow> Inl f
         | Inr st2 \<Rightarrow>
             let released =
               (if lastButtonState st2 = LOW \<and> buttonState inp = HIGH \<and> isRecording st2 then
                  let st3 = stopRecording st2;
                      audioDataSize = audioBufferPos st3 - of_nat WAV_HEADER_SIZE
                  in if meaningful (durationSecs audioDataSize)
                     then sendAudioToServer (net inp) st3
                     else Inr (emit (Serial TooShort) st3)
                else Inr st2)
             in case released of
                  Inl f \<Rightarrow> Inl f
                | Inr st4 \<Rightarrow> Inr (emit (Delay 10) (st4\<lparr>lastButtonState := buttonState inp\<rparr>)))"

text \<open>A run of the firmware: \<open>loop()\<close> called once per input, from the first on.\<close>

fun run :: "input list \<Rightarrow> state \<Rightarrow> fault + state" where
  "run [] st = Inr st"
| "run (inp # inps) st = (case loop inp st of Inl f \<Rightarrow> Inl f | Inr st' \<Rightarrow> run inps st')"

text \<open>The globals as initialised at lines 68-71, with the buffer as allocated.\<close>

definition initial :: "buffer \<Rightarrow> state" where
  "initial buf =
     \<lparr>audioBuffer = buf, audioBufferPos = 0, isRecording = False, lastButtonState = HIGH,
      trace = []\<rparr>"

section \<open>Concrete inputs\<close>

text \<open>A read of the microphone that fills \<open>readBuf\<close>.\<close>

definition full_chunk :: mic_read where
  "full_chunk = \<lparr>esp_ok = True, samples = replicate 1024 7\<rparr>"

text \<open>The device after a recording of two payload bytes, back in idle.\<close>

definition after_short_recording :: state where
  "after_short_recording =
     \<lparr>audioBuffer = writeWavHeader (\<lambda>i. 7) 2, audioBufferPos = 46, isRecording = False,
      lastButtonState = HIGH, trace = []\<rparr>"

text \<open>Answers of the hub: a WAV of 46 bytes that arrives after one empty poll, a WAV
  declared one byte larger than the buffer, a text answer, and a status 204.\<close>

definition wav_answer :: http_response where
  "wav_answer =
     \<lparr>httpCode = 200, contentType = ''audio/wav'', getSize = 46,
      stream = [\<lparr>available = 0, incoming = []\<rparr>,
                \<lparr>available = 46, incoming = replicate 46 1\<rparr>],
      getString = []\<rparr>"

definition oversized_answer :: http_response where
  "oversized_answer =
     \<lparr>httpCode = 200, contentType = ''audio/wav'', getSize = 480045,
      stream = [\<lparr>available = 1024, incoming = replicate 1024 1\<rparr>], getString = []\<rparr>"

definition text_answer :: http_response where
  "text_answer =
     \<lparr>httpCode = 200, contentType = ''application/json'', getSize = 2, stream = [],
      getString = ''{}''\<rparr>"

definition no_content_answer :: http_response where
  "no_content_answer =
     \<lparr>httpCode = 204, contentType = ''audio/wav'', getSize = 46,
      stream = [\<lparr>available = 46, incoming = replicate 46 1\<rparr>], getString = []\<rparr>"

definition online :: "http_response \<Rightarrow> network" where
  "online r = \<lparr>wifiConnected = True, response = r\<rparr>"

definition offline :: "http_response \<Rightarrow> network" where
  "offline r = \<lparr>wifiConnected = False, response = r\<rparr>"

text \<open>The device in the middle of a recording, \<open>n\<close> payload bytes captured, button
  seen down at the last iteration.\<close>

definition recording :: "nat \<Rightarrow> state" where
  "recording n =
     \<lparr>audioBuffer = (\<lambda>i. 7), audioBufferPos = of_nat (WAV_HEADER_SIZE + n), isRecording = True,
      lastButtonState = LOW, trace = []\<rparr>"

text \<open>One iteration with the button down and a full read of the microphone, and one
  with the button up.\<close>

definition hold :: "network \<Rightarrow> input" where
  "hold n = \<lparr>buttonState = LOW, mic = full_chunk, net = n\<rparr>"

definition release :: "network \<Rightarrow> input" where
  "release n = \<lparr>buttonState = HIGH, mic = full_chunk, net = n\<rparr>"

text \<open>The zeroed buffer once \<open>k\<close> bytes of such reads are stored behind the 44 bytes
  reserved for the header, and nothing else has been written.\<close>

definition filled :: "nat \<Rightarrow> buffer" where
  "filled k = (\<lambda>i. if WAV_HEADER_SIZE \<le> i \<and> i < WAV_HEADER_SIZE + k then 7 else 0)"

section \<open>The header codec\<close>

lemma le32_split:
  "le32 (ucast w) (ucast (drop_bit 8 w)) (ucast (drop_bit 16 w)) (ucast (drop_bit 24 w)) = w"
  unfolding le32_def
proof (rule bit_word_eqI)
  fix n :: nat
  assume n: "n < LENGTH(32)"
  consider "n < 8" | "8 \<le> n" "n < 16" | "16 \<le> n" "n < 24" | "24 \<le> n" "n < 32"
    using n by force
  then show "bit (ucast (ucast w :: byte) OR push_bit 8 (ucast (ucast (drop_bit 8 w) :: byte)) OR
       push_bit 16 (ucast (ucast (drop_bit 16 w) :: byte)) OR
       push_bit 24 (ucast (ucast (drop_bit 24 w) :: byte)) :: 32 word) n = bit w n"
    by cases (auto simp add: bit_simps)
qed

lemma writeWavHeader_above: "44 \<le> i \<Longrightarrow> writeWavHeader buf n i = buf i"
  by (simp add: writeWavHeader_def Let_def)

lemma writeWavHeader_below: "i < 44 \<Longrightarrow> writeWavHeader buf n i = writeWavHeader buf' n i"
  unfolding writeWavHeader_def Let_def
  by (simp only: fun_upd_apply) presburger

lemma writeWavHeader_length_field:
  "le32 (writeWavHeader buf n 40) (writeWavHeader buf n 41) (writeWavHeader buf n 42)
        (writeWavHeader buf n 43) = n"
  by (simp add: writeWavHeader_def Let_def le32_split)

lemma writeWavHeader_size_field:
  "le32 (writeWavHeader buf n 4) (writeWavHeader buf n 5) (writeWavHeader buf n 6)
        (writeWavHeader buf n 7) = n + 36"
  by (simp add: writeWavHeader_def Let_def le32_split config)

lemma buffer_bytes_length [simp]: "length (buffer_bytes buf k) = k"
  by (simp add: buffer_bytes_def)

lemma buffer_bytes_nth [simp]: "i < k \<Longrightarrow> buffer_bytes buf k ! i = buf i"
  by (simp add: buffer_bytes_def)

lemma upt_four: "[i..<i + 4] = [i, i + 1, i + 2, i + 3]"
  by (simp add: upt_conv_Cons numeral_eq_Suc)

lemma tag_at_buffer_bytes:
  "i + 4 \<le> k \<Longrightarrow> tag_at (buffer_bytes buf k) i [a, b, c, d] \<longleftrightarrow>
     buf i = byte_of_char a \<and> buf (i + 1) = byte_of_char b \<and> buf (i + 2) = byte_of_char c
       \<and> buf (i + 3) = byte_of_char d"
  by (simp add: tag_at_def buffer_bytes_def drop_map take_map take_upt add.commute upt_four
      numeral_3_eq_3)

lemma writeWavHeader_tags:
  assumes "44 \<le> k"
  shows "tag_at (buffer_bytes (writeWavHeader buf n) k) 0 ''RIFF''"
    and "tag_at (buffer_bytes (writeWavHeader buf n) k) 8 ''WAVE''"
    and "tag_at (buffer_bytes (writeWavHeader buf n) k) 12 ''fmt ''"
    and "tag_at (buffer_bytes (writeWavHeader buf n) k) 36 ''data''"
  using assms by (simp_all add: tag_at_buffer_bytes) (simp_all add: writeWavHeader_def Let_def)

lemma validateHeader_writeWavHeader:
  "validateHeader (buffer_bytes (writeWavHeader buf n) (WAV_HEADER_SIZE + k)) = Inr n"
proof -
  have k: "44 \<le> WAV_HEADER_SIZE + k"
    by (simp add: WAV_HEADER_SIZE_def)
  have "le32_at (buffer_bytes (writeWavHeader buf n) (WAV_HEADER_SIZE + k)) 40 = n"
    using k by (simp add: le32_at_def writeWavHeader_length_field)
  then show ?thesis
    using writeWavHeader_tags [OF k] by (simp add: validateHeader_def)
qed

text \<open>C2. For every payload size \<open>n\<close> with \<open>0 < n \<le> capacity - header_size\<close>: the
  buffer whose header was written by \<open>writeWavHeader buf n\<close>, sent with its \<open>n\<close> payload
  bytes, passes the consumer's validation (RIFF/WAVE and fmt/data tags) and the declared
  length read back from bytes 40-43 is \<open>n\<close>; bytes 4-7 hold \<open>n + 36\<close>.\<close>

theorem header_roundtrip:
  assumes "0 < unat n" and "unat n \<le> BUFFER_SIZE - WAV_HEADER_SIZE"
  shows "validateHeader (buffer_bytes (writeWavHeader buf n) (WAV_HEADER_SIZE + unat n)) = Inr n
       \<and> unat (le32_at (buffer_bytes (writeWavHeader buf n) (WAV_HEADER_SIZE + unat n)) 4)
           = unat n + 36"
proof -
  have "le32_at (buffer_bytes (writeWavHeader buf n) (WAV_HEADER_SIZE + unat n)) 4 = n + 36"
    by (simp add: le32_at_def writeWavHeader_size_field WAV_HEADER_SIZE_def)
  moreover have "unat n + 36 < 2 ^ LENGTH(32)"
    using assms(2) by (simp add: config)
  then have "unat (n + 36) = unat n + 36"
    using unat_add_lem [of n 36] by simp
  ultimately show ?thesis
    by (simp add: validateHeader_writeWavHeader)
qed

theorem header_roundtrip_witness:
  "validateHeader (buffer_bytes (writeWavHeader (\<lambda>i. 0) 32000) (WAV_HEADER_SIZE + 32000))
     = Inr 32000
   \<and> unat (le32_at (buffer_bytes (writeWavHeader (\<lambda>i. 0) 32000) (WAV_HEADER_SIZE + 32000)) 4)
     = 32036"
  using header_roundtrip [of 32000 "\<lambda>i. 0"] by (simp add: config)

text \<open>C8. \<open>writeWavHeader\<close> touches only the first 44 bytes: whatever the buffer holds
  from offset 44 on (the payload captured before) is unchanged, and the 44 header bytes
  do not depend on the buffer they are written into, only on \<open>dataSize\<close> and the
  format constants.\<close>

theorem writeWavHeader_frame:
  "(\<forall>i. WAV_HEADER_SIZE \<le> i \<longrightarrow> writeWavHeader buf dataSize i = buf i)
   \<and> buffer_bytes (writeWavHeader buf dataSize) WAV_HEADER_SIZE
       = buffer_bytes (writeWavHeader buf' dataSize) WAV_HEADER_SIZE"
proof -
  have "map (writeWavHeader buf dataSize) [0..<44] = map (writeWavHeader buf' dataSize) [0..<44]"
    by (rule map_cong [OF refl]) (simp add: writeWavHeader_below [of _ buf dataSize buf'])
  then show ?thesis
    by (simp add: buffer_bytes_def WAV_HEADER_SIZE_def writeWavHeader_above)
qed

theorem writeWavHeader_frame_witness:
  "writeWavHeader (\<lambda>i. of_nat i) 32000 44 = 44
   \<and> writeWavHeader (\<lambda>i. of_nat i) 32000 100 = 100
   \<and> buffer_bytes (writeWavHeader (\<lambda>i. of_nat i) 32000) WAV_HEADER_SIZE
       = buffer_bytes (writeWavHeader (\<lambda>i. 0) 32000) WAV_HEADER_SIZE"
  using writeWavHeader_frame [of "\<lambda>i. of_nat i" 32000 "\<lambda>i. 0"] by (simp add: config)

section \<open>Capture stays inside the buffer\<close>

lemma unat_of_nat_small: "n < 2 ^ 32 \<Longrightarrow> unat (of_nat n :: size_t) = n"
  by (simp add: unat_of_nat)

lemma unat_chunk_length:
  "unat (of_nat (length (take I2S_READ_BUF_SIZE xs)) :: size_t) = length (take I2S_READ_BUF_SIZE xs)"
  by (simp add: unat_of_nat_small I2S_READ_BUF_SIZE_def min_def)

lemma room_check:
  assumes "unat pos \<le> BUFFER_SIZE" and "n \<le> I2S_READ_BUF_SIZE"
  shows "(pos + (of_nat n :: size_t) \<le> of_nat (MAX_AUDIO_BYTES + WAV_HEADER_SIZE))
           \<longleftrightarrow> unat pos + n \<le> BUFFER_SIZE"
    and "unat pos + n \<le> BUFFER_SIZE \<Longrightarrow> unat (pos + (of_nat n :: size_t)) = unat pos + n"
proof -
  have n: "unat (of_nat n :: size_t) = n"
    using assms(2) by (simp add: unat_of_nat_small I2S_READ_BUF_SIZE_def)
  have "unat pos + unat (of_nat n :: size_t) < 2 ^ LENGTH(32)"
    using assms by (simp add: n config)
  then have s: "unat (pos + (of_nat n :: size_t)) = unat pos + n"
    using unat_add_lem [of pos "of_nat n"] by (simp add: n)
  show "(pos + (of_nat n :: size_t) \<le> of_nat (MAX_AUDIO_BYTES + WAV_HEADER_SIZE))
           \<longleftrightarrow> unat pos + n \<le> BUFFER_SIZE"
    by (simp add: word_le_nat_alt s) (simp add: config)
  show "unat (pos + (of_nat n :: size_t)) = unat pos + n"
    by (rule s)
qed

lemma captureAudioChunk_step:
  assumes "in_bounds st"
  shows "\<exists>st'. captureAudioChunk m st = Inr st' \<and> in_bounds st'
           \<and> (\<forall>i. BUFFER_SIZE \<le> i \<longrightarrow> audioBuffer st' i = audioBuffer st i)
           \<and> (\<forall>i. i < unat (audioBufferPos st) \<longrightarrow> audioBuffer st' i = audioBuffer st i)
           \<and> (isRecording st' \<longrightarrow>
                 isRecording st \<and> unat (audioBufferPos st') = unat (audioBufferPos st) + delivered m)"
proof -
  let ?chunk = "take I2S_READ_BUF_SIZE (samples m)"
  have len: "length ?chunk \<le> I2S_READ_BUF_SIZE" by simp
  have pos: "unat (audioBufferPos st) \<le> BUFFER_SIZE"
    using assms by (simp add: in_bounds_def)
  note rc = room_check [OF pos len]
  have nz: "(0 < (of_nat (length ?chunk) :: size_t)) \<longleftrightarrow> 0 < length ?chunk"
    using unat_chunk_length [of "samples m"] by (simp add: word_less_nat_alt)
  show ?thesis
    using assms rc nz
    by (auto simp add: captureAudioChunk_def Let_def buffer_write_def in_bounds_def emit_def delivered_def
        simp del: length_take)
qed


lemma captures_run:
  assumes "in_bounds st"
  shows "\<exists>st'. captures ms st = Inr st' \<and> in_bounds st'
           \<and> (\<forall>i. BUFFER_SIZE \<le> i \<longrightarrow> audioBuffer st' i = audioBuffer st i)
           \<and> (isRecording st' \<longrightarrow>
                 isRecording st \<and>
                 unat (audioBufferPos st') = unat (audioBufferPos st) + sum_list (map delivered ms))"
  using assms
proof (induction ms arbitrary: st)
  case Nil
  then show ?case by simp
next
  case (Cons m ms)
  from captureAudioChunk_step [OF Cons.prems, of m] obtain st1 where
    st1: "captureAudioChunk m st = Inr st1" "in_bounds st1"
      "\<forall>i. BUFFER_SIZE \<le> i \<longrightarrow> audioBuffer st1 i = audioBuffer st i"
      "isRecording st1 \<longrightarrow>
         isRecording st \<and> unat (audioBufferPos st1) = unat (audioBufferPos st) + delivered m"
    by blast
  from Cons.IH [OF st1(2)] obtain st' where
    st': "captures ms st1 = Inr st'" "in_bounds st'"
      "\<forall>i. BUFFER_SIZE \<le> i \<longrightarrow> audioBuffer st' i = audioBuffer st1 i"
      "isRecording st' \<longrightarrow>
         isRecording st1 \<and>
         unat (audioBufferPos st') = unat (audioBufferPos st1) + sum_list (map delivered ms)"
    by blast
  show ?case
    using st1 st' by auto
qed

lemma in_bounds_startRecording: "in_bounds (startRecording st)"
  by (simp add: in_bounds_def startRecording_def emit_def config)

lemma stopRecording_declared_length:
  "le32_at (buffer_bytes (audioBuffer (stopRecording st)) WAV_HEADER_SIZE) 40
     = audioBufferPos st - of_nat WAV_HEADER_SIZE"
  by (simp add: stopRecording_def Let_def emit_def le32_at_def WAV_HEADER_SIZE_def
      writeWavHeader_length_field)

lemma unat_payload_size:
  "in_bounds st \<Longrightarrow>
     unat (audioBufferPos st - of_nat WAV_HEADER_SIZE) = unat (audioBufferPos st) - WAV_HEADER_SIZE"
  by (simp add: in_bounds_def WAV_HEADER_SIZE_def unat_sub word_le_nat_alt)

text \<open>Whatever the microphone delivers after \<open>startRecording\<close>, no call of
  \<open>captureAudioChunk\<close> copies outside the allocation (the run never faults): the cursor
  stays between \<open>WAV_HEADER_SIZE\<close> and \<open>BUFFER_SIZE\<close>, nothing at or beyond
  \<open>BUFFER_SIZE\<close> changes, and a sequence that delivers more than the buffer can take
  leaves capture stopped.\<close>

lemma captures_stay_in_buffer:
  "case captures ms (startRecording st) of
     Inl f \<Rightarrow> False
   | Inr st' \<Rightarrow>
       WAV_HEADER_SIZE \<le> unat (audioBufferPos st') \<and> unat (audioBufferPos st') \<le> BUFFER_SIZE
     \<and> (\<forall>i. BUFFER_SIZE \<le> i \<longrightarrow> audioBuffer st' i = audioBuffer st i)
     \<and> (BUFFER_SIZE - WAV_HEADER_SIZE < sum_list (map delivered ms) \<longrightarrow> \<not> isRecording st')"
proof -
  from captures_run [OF in_bounds_startRecording, of ms st] obtain st' where
    st': "captures ms (startRecording st) = Inr st'" "in_bounds st'"
      "\<forall>i. BUFFER_SIZE \<le> i \<longrightarrow> audioBuffer st' i = audioBuffer (startRecording st) i"
      "isRecording st' \<longrightarrow>
         unat (audioBufferPos st') = unat (audioBufferPos (startRecording st)) + sum_list (map delivered ms)"
    by blast
  have start: "audioBuffer (startRecording st) = audioBuffer st"
    "unat (audioBufferPos (startRecording st)) = WAV_HEADER_SIZE"
    by (simp_all add: startRecording_def emit_def WAV_HEADER_SIZE_def)
  have full: "BUFFER_SIZE - WAV_HEADER_SIZE < sum_list (map delivered ms) \<longrightarrow> \<not> isRecording st'"
    using st'(2,4) start(2) by (auto simp add: in_bounds_def)
  show ?thesis
    using st'(1,2,3) full start(1) by (simp add: in_bounds_def)
qed

section \<open>The receive loop\<close>

lemma read_response_run:
  assumes cap: "unat L \<le> BUFFER_SIZE" and L: "word_of_int len = L" and "b \<le> L"
  shows "case read_response len ps b st of
           Inl f \<Rightarrow> f = Unfinished \<and> unat b + sum_list (map poll_yield ps) < unat L
         | Inr (n, st') \<Rightarrow>
             n = L \<and> unat L \<le> unat b + sum_list (map poll_yield ps)
           \<and> (\<forall>i. i < unat b \<or> unat L \<le> i \<longrightarrow> audioBuffer st' i = audioBuffer st i)
           \<and> audioBufferPos st' = audioBufferPos st \<and> isRecording st' = isRecording st
           \<and> lastButtonState st' = lastButtonState st
           \<and> (\<exists>k. trace st' = trace st @ replicate k (Delay 1))"
  using assms(3)
proof (induction ps arbitrary: b st)
  case Nil
  show ?case
  proof (cases "b < L")
    case True
    then have "unat b < unat L" by (simp add: word_less_nat_alt)
    with True show ?thesis using L by simp
  next
    case False
    with Nil show ?thesis using L by auto
  qed
next
  case (Cons p ps)
  show ?case
  proof (cases "b < L")
    case False
    with Cons.prems show ?thesis
      using L by auto
  next
    case lt: True
    show ?thesis
    proof (cases "available p = 0")
      case True
      have y: "poll_yield p = 0" using True by (simp add: poll_yield_def)
      have step: "read_response len (p # ps) b st = read_response len ps b (emit (Delay 1) st)"
        using lt True L by simp
      have tr: "\<exists>j. (t @ [Delay (Suc 0)]) @ replicate k (Delay (Suc 0))
                     = t @ replicate j (Delay (Suc 0))" for t k
        by (rule exI [of _ "Suc k"]) simp
      from Cons.IH [OF Cons.prems, of "emit (Delay 1) st"]
      show ?thesis
        unfolding step
        by (auto simp add: emit_def y tr split: sum.splits simp del: replicate_Suc append_assoc)
    next
      case False
      define toRead where "toRead = min (available p) (L - b)"
      define got where "got = take (unat toRead) (incoming p)"
      define b2 where "b2 = b + of_nat (length got)"
      have rem: "unat (L - b) = unat L - unat b"
        using lt by (simp add: unat_sub word_less_nat_alt word_le_nat_alt)
      have tr: "unat toRead = min (unat (available p)) (unat L - unat b)"
        by (simp add: toRead_def min_def word_le_nat_alt rem)
      have lg: "length got = min (poll_yield p) (unat L - unat b)"
        by (auto simp add: got_def tr poll_yield_def)
      have fits: "unat b + length got \<le> unat L"
        using lt by (simp add: lg word_less_nat_alt)
      have "unat b + length got < 2 ^ 32"
        using fits cap by (simp add: config)
      then have ub2: "unat b2 = unat b + length got"
        using unat_add_lem [of b "of_nat (length got)"] by (simp add: b2_def unat_of_nat)
      have b2: "b2 \<le> L"
        using fits by (simp add: word_le_nat_alt ub2)
      define buf2 where
        "buf2 = (\<lambda>i. if unat b \<le> i \<and> i < unat b + length got then got ! (i - unat b)
                      else audioBuffer st i)"
      have w: "buffer_write (audioBuffer st) (unat b) got = Inr buf2"
        using fits cap by (simp add: buffer_write_def buf2_def)
      have step: "read_response len (p # ps) b st
                    = read_response len ps b2 (st\<lparr>audioBuffer := buf2\<rparr>)"
        using lt False L w by (simp add: Let_def toRead_def [symmetric] got_def [symmetric] b2_def)
      from Cons.IH [OF b2, of "st\<lparr>audioBuffer := buf2\<rparr>"]
      show ?thesis
        unfolding step
        using fits by (auto simp add: ub2 lg buf2_def split: sum.splits)
    qed
  qed
qed

section \<open>The exchange\<close>

lemma unat_word_of_int_len:
  "0 \<le> len \<Longrightarrow> len \<le> int BUFFER_SIZE \<Longrightarrow> unat (word_of_int len :: size_t) = nat len"
proof -
  assume a: "0 \<le> len" "len \<le> int BUFFER_SIZE"
  then have "len < 2 ^ 32" by (simp add: config)
  with a(1) have "take_bit 32 len = len" by (simp add: take_bit_int_eq_self)
  then show ?thesis by (simp add: unsigned_of_int)
qed

lemma play_chunks_only_dac:
  "filter is_playback (play_chunks buf off tot) = [] \<and> filter is_post (play_chunks buf off tot) = []"
proof (induction buf off tot rule: play_chunks.induct)
  case (1 buf offset totalBytes)
  show ?case
  proof (cases "offset < totalBytes")
    case True
    with 1 [OF True refl] show ?thesis
      by (subst (1 2) play_chunks.simps) (simp add: Let_def)
  next
    case False
    then show ?thesis by (subst (1 2) play_chunks.simps) simp
  qed
qed

lemma playAudio_effect:
  "audioBuffer (playAudio n st) = audioBuffer st"
  "audioBufferPos (playAudio n st) = audioBufferPos st"
  "isRecording (playAudio n st) = isRecording st"
  "lastButtonState (playAudio n st) = lastButtonState st"
  "playbacks (trace (playAudio n st)) = playbacks (trace st) + 1"
  "posts (trace (playAudio n st)) = posts (trace st)"
  by (simp_all add: playAudio_def Let_def emit_def playbacks_def posts_def play_chunks_only_dac)

lemma playbacks_simps [simp]:
  "playbacks (t @ u) = playbacks t + playbacks u"
  "playbacks [] = 0"
  "playbacks (e # t) = (if is_playback e then 1 else 0) + playbacks t"
  "playbacks (replicate k (Delay d)) = 0"
  by (simp_all add: playbacks_def)

lemma posts_simps [simp]:
  "posts (t @ u) = posts t + posts u"
  "posts [] = 0"
  "posts (e # t) = (if is_post e then 1 else 0) + posts t"
  "posts (replicate k (Delay d)) = 0"
  by (simp_all add: posts_def)


lemma play_chunks_counts [simp]:
  "playbacks (play_chunks buf off tot) = 0" "posts (play_chunks buf off tot) = 0"
  by (simp_all add: playbacks_def posts_def play_chunks_only_dac)

lemma sendAudioToServer_audio:
  assumes "wifiConnected n" and "httpCode (response n) = 200"
    and "startsWith (contentType (response n)) ''audio/wav''"
    and "int WAV_HEADER_SIZE < getSize (response n)"
    and "getSize (response n) \<le> int BUFFER_SIZE"
  shows "case sendAudioToServer n st of
           Inl f \<Rightarrow> f = Unfinished
             \<and> sum_list (map poll_yield (stream (response n))) < nat (getSize (response n))
         | Inr st' \<Rightarrow>
             nat (getSize (response n)) \<le> sum_list (map poll_yield (stream (response n)))
           \<and> playbacks (trace st') = playbacks (trace st) + 1
           \<and> posts (trace st') = posts (trace st) + 1
           \<and> Serial (Playing (word_of_int (getSize (response n)))) \<in> set (trace st')
           \<and> (\<forall>i. nat (getSize (response n)) \<le> i \<longrightarrow> audioBuffer st' i = audioBuffer st i)
           \<and> audioBufferPos st' = audioBufferPos st \<and> isRecording st' = isRecording st"
proof -
  let ?r = "response n"
  let ?L = "word_of_int (getSize ?r) :: size_t"
  let ?st4 = "emit (Serial (AudioResponse (getSize ?r)))
     (emit (Serial (ResponseReceived (httpCode ?r)))
       (emit (HttpPost (buffer_bytes (audioBuffer st) (unat (audioBufferPos st))))
         (emit (Led HIGH) (emit (Serial (Sending (audioBufferPos st))) st))))"
  have uL: "unat ?L = nat (getSize ?r)"
    using assms(4,5) by (simp add: unat_word_of_int_len)
  have cap: "unat ?L \<le> BUFFER_SIZE"
    using assms(5) by (simp add: uL)
  have send: "sendAudioToServer n st =
      (case read_response (getSize ?r) (stream ?r) 0 ?st4 of
         Inl f \<Rightarrow> Inl f
       | Inr (bytesRead, st5) \<Rightarrow> http_end (playAudio bytesRead st5))"
    using assms by (simp add: sendAudioToServer_def Let_def emit_def BUFFER_SIZE_def)
  from read_response_run [OF cap refl, of 0 "stream ?r" ?st4]
  show ?thesis
    unfolding send
    by (auto simp add: uL http_end_def emit_def playAudio_effect playAudio_def Let_def
        split: sum.splits)
qed

lemma sendAudioToServer_too_large:
  assumes "wifiConnected n" and "httpCode (response n) = 200"
    and "startsWith (contentType (response n)) ''audio/wav''"
    and "int BUFFER_SIZE < getSize (response n)"
  shows "sendAudioToServer n st =
     Inr (st\<lparr>trace := trace st @
       [Serial (Sending (audioBufferPos st)), Led HIGH,
        HttpPost (buffer_bytes (audioBuffer st) (unat (audioBufferPos st))),
        Serial (ResponseReceived 200), Serial (AudioResponse (getSize (response n))),
        Serial ResponseTooLarge, HttpEnd, Led LOW]\<rparr>)"
  using assms by (simp add: sendAudioToServer_def Let_def emit_def http_end_def config)

lemma sendAudioToServer_text:
  assumes "wifiConnected n" and "httpCode (response n) = 200"
    and "\<not> (startsWith (contentType (response n)) ''audio/wav''
            \<and> int WAV_HEADER_SIZE < getSize (response n))"
  shows "sendAudioToServer n st =
     Inr (st\<lparr>trace := trace st @
       [Serial (Sending (audioBufferPos st)), Led HIGH,
        HttpPost (buffer_bytes (audioBuffer st) (unat (audioBufferPos st))),
        Serial (ResponseReceived 200), Serial (ServerResponse (getString (response n))),
        HttpEnd, Led LOW]\<rparr>)"
  using assms by (auto simp add: sendAudioToServer_def Let_def emit_def http_end_def)

lemma sendAudioToServer_error:
  assumes "wifiConnected n" and "httpCode (response n) \<noteq> 200"
  shows "sendAudioToServer n st =
     Inr (st\<lparr>trace := trace st @
       [Serial (Sending (audioBufferPos st)), Led HIGH,
        HttpPost (buffer_bytes (audioBuffer st) (unat (audioBufferPos st))),
        Serial (HttpError (httpCode (response n))), HttpEnd, Led LOW]\<rparr>)"
  using assms by (simp add: sendAudioToServer_def Let_def emit_def http_end_def)

lemma sendAudioToServer_offline:
  assumes "\<not> wifiConnected n"
  shows "sendAudioToServer n st = Inr (st\<lparr>trace := trace st @ [Serial WifiNotConnected]\<rparr>)"
  using assms by (simp add: sendAudioToServer_def emit_def)

text \<open>C5. A status-200 answer whose content type starts with \<open>audio/wav\<close> and whose
  declared length exceeds \<open>MAX_AUDIO_BYTES + WAV_HEADER_SIZE\<close>: the exchange ends with
  the console message "Audio response too large for buffer", the buffer is what it was
  before the call, and neither \<open>playAudio\<close> nor any DAC write happens.\<close>

theorem oversized_audio_response_rejected:
  assumes "wifiConnected n" and "httpCode (response n) = 200"
    and "startsWith (contentType (response n)) ''audio/wav''"
    and "int WAV_HEADER_SIZE < getSize (response n)"
    and "int (MAX_AUDIO_BYTES + WAV_HEADER_SIZE) < getSize (response n)"
  shows "\<exists>st'. sendAudioToServer n st = Inr st'
           \<and> audioBuffer st' = audioBuffer st
           \<and> trace st' = trace st @
               [Serial (Sending (audioBufferPos st)), Led HIGH,
                HttpPost (buffer_bytes (audioBuffer st) (unat (audioBufferPos st))),
                Serial (ResponseReceived 200), Serial (AudioResponse (getSize (response n))),
                Serial ResponseTooLarge, HttpEnd, Led LOW]
           \<and> playbacks (trace st') = playbacks (trace st)
           \<and> dac_writes (trace st') = dac_writes (trace st)"
proof -
  have "int BUFFER_SIZE < getSize (response n)"
    using assms(5) by (simp add: BUFFER_SIZE_def)
  from sendAudioToServer_too_large [OF assms(1-3) this, of st] show ?thesis
    by (simp add: dac_writes_def)
qed

theorem oversized_audio_response_rejected_witness:
  "\<exists>st'. sendAudioToServer (online oversized_answer) after_short_recording = Inr st'
         \<and> audioBuffer st' = writeWavHeader (\<lambda>i. 7) 2
         \<and> trace st' =
               [Serial (Sending 46), Led HIGH,
                HttpPost (buffer_bytes (writeWavHeader (\<lambda>i. 7) 2) 46),
                Serial (ResponseReceived 200), Serial (AudioResponse 480045),
                Serial ResponseTooLarge, HttpEnd, Led LOW]
         \<and> playbacks (trace st') = 0
         \<and> dac_writes (trace st') = 0"
  using oversized_audio_response_rejected [of "online oversized_answer" after_short_recording]
  by (simp add: online_def oversized_answer_def after_short_recording_def startsWith_def config
      dac_writes_def)

text \<open>C6, as stated, fails: an answer classified as audio (status 200, content type
  \<open>audio/wav\<close>, declared length 480045 > 44) is not played.\<close>

theorem audio_response_played_once_counterexample:
  "wifiConnected (online oversized_answer)
   \<and> httpCode (response (online oversized_answer)) = 200
   \<and> startsWith (contentType (response (online oversized_answer))) ''audio/wav''
   \<and> int WAV_HEADER_SIZE < getSize (response (online oversized_answer))
   \<and> (\<exists>st'. sendAudioToServer (online oversized_answer) after_short_recording = Inr st'
          \<and> playbacks (trace st') = playbacks (trace after_short_recording))"
  by (simp add: sendAudioToServer_too_large online_def oversized_answer_def startsWith_def config)

text \<open>C6, amended. On status 200 the answer takes the audio path exactly when its
  content type starts with \<open>audio/wav\<close> and its declared length exceeds 44. On that path,
  when the declared length fits the buffer and the stream delivers that many bytes,
  \<open>playAudio\<close> is invoked exactly once. Any other answer is printed as text: no
  playback, buffer unchanged.\<close>

theorem response_classification:
  assumes "wifiConnected n" and "httpCode (response n) = 200"
  shows "(startsWith (contentType (response n)) ''audio/wav''
            \<and> int WAV_HEADER_SIZE < getSize (response n)
            \<and> getSize (response n) \<le> int (MAX_AUDIO_BYTES + WAV_HEADER_SIZE)
            \<and> nat (getSize (response n)) \<le> sum_list (map poll_yield (stream (response n)))
          \<longrightarrow> (\<exists>st'. sendAudioToServer n st = Inr st'
                 \<and> playbacks (trace st') = playbacks (trace st) + 1
                 \<and> Serial (Playing (word_of_int (getSize (response n)))) \<in> set (trace st')))
       \<and> (\<not> (startsWith (contentType (response n)) ''audio/wav''
               \<and> int WAV_HEADER_SIZE < getSize (response n))
          \<longrightarrow> (\<exists>st'. sendAudioToServer n st = Inr st'
                 \<and> trace st' = trace st @
                     [Serial (Sending (audioBufferPos st)), Led HIGH,
                      HttpPost (buffer_bytes (audioBuffer st) (unat (audioBufferPos st))),
                      Serial (ResponseReceived 200),
                      Serial (ServerResponse (getString (response n))), HttpEnd, Led LOW]
                 \<and> playbacks (trace st') = playbacks (trace st)
                 \<and> audioBuffer st' = audioBuffer st))"
proof (intro conjI impI)
  assume a: "startsWith (contentType (response n)) ''audio/wav''
            \<and> int WAV_HEADER_SIZE < getSize (response n)
            \<and> getSize (response n) \<le> int (MAX_AUDIO_BYTES + WAV_HEADER_SIZE)
            \<and> nat (getSize (response n)) \<le> sum_list (map poll_yield (stream (response n)))"
  then have cap: "getSize (response n) \<le> int BUFFER_SIZE"
    by (simp add: BUFFER_SIZE_def)
  from sendAudioToServer_audio [OF assms _ _ cap, of st] a
  show "\<exists>st'. sendAudioToServer n st = Inr st'
                 \<and> playbacks (trace st') = playbacks (trace st) + 1
                 \<and> Serial (Playing (word_of_int (getSize (response n)))) \<in> set (trace st')"
    by (auto split: sum.splits)
next
  assume "\<not> (startsWith (contentType (response n)) ''audio/wav''
               \<and> int WAV_HEADER_SIZE < getSize (response n))"
  from sendAudioToServer_text [OF assms this, of st]
  show "\<exists>st'. sendAudioToServer n st = Inr st'
                 \<and> trace st' = trace st @
                     [Serial (Sending (audioBufferPos st)), Led HIGH,
                      HttpPost (buffer_bytes (audioBuffer st) (unat (audioBufferPos st))),
                      Serial (ResponseReceived 200),
                      Serial (ServerResponse (getString (response n))), HttpEnd, Led LOW]
                 \<and> playbacks (trace st') = playbacks (trace st)
                 \<and> audioBuffer st' = audioBuffer st"
    by simp
qed

theorem response_classification_witness:
  "(\<exists>st'. sendAudioToServer (online wav_answer) after_short_recording = Inr st'
        \<and> playbacks (trace st') = 1
        \<and> Serial (Playing 46) \<in> set (trace st'))
   \<and> (\<exists>st'. sendAudioToServer (online text_answer) after_short_recording = Inr st'
        \<and> trace st' =
             [Serial (Sending 46), Led HIGH,
              HttpPost (buffer_bytes (writeWavHeader (\<lambda>i. 7) 2) 46),
              Serial (ResponseReceived 200), Serial (ServerResponse ''{}''), HttpEnd, Led LOW]
        \<and> playbacks (trace st') = 0
        \<and> audioBuffer st' = writeWavHeader (\<lambda>i. 7) 2)"
  using response_classification [of "online wav_answer" after_short_recording]
    response_classification [of "online text_answer" after_short_recording]
  by (simp add: online_def wav_answer_def text_answer_def after_short_recording_def
      startsWith_def config poll_yield_def)

text \<open>C10. With the link up, a status other than 200 (201, 204, a negative client
  code) gives one POST, the console message "Error: code", no playback and an unchanged
  buffer. Conversely, an exchange that plays or changes the buffer, or that is still
  receiving, had status 200.\<close>

theorem only_status_200_is_success:
  "(wifiConnected n \<and> httpCode (response n) \<noteq> 200 \<longrightarrow>
      (\<exists>st'. sendAudioToServer n st = Inr st'
         \<and> trace st' = trace st @
             [Serial (Sending (audioBufferPos st)), Led HIGH,
              HttpPost (buffer_bytes (audioBuffer st) (unat (audioBufferPos st))),
              Serial (HttpError (httpCode (response n))), HttpEnd, Led LOW]
         \<and> posts (trace st') = posts (trace st) + 1
         \<and> playbacks (trace st') = playbacks (trace st)
         \<and> audioBuffer st' = audioBuffer st))
   \<and> (\<forall>st'. sendAudioToServer n st = Inr st'
          \<and> (playbacks (trace st') \<noteq> playbacks (trace st) \<or> audioBuffer st' \<noteq> audioBuffer st)
        \<longrightarrow> wifiConnected n \<and> httpCode (response n) = 200)
   \<and> (\<forall>f. sendAudioToServer n st = Inl f
        \<longrightarrow> wifiConnected n \<and> httpCode (response n) = 200)"
proof (intro conjI impI allI)
  assume "wifiConnected n \<and> httpCode (response n) \<noteq> 200"
  then show "\<exists>st'. sendAudioToServer n st = Inr st'
         \<and> trace st' = trace st @
             [Serial (Sending (audioBufferPos st)), Led HIGH,
              HttpPost (buffer_bytes (audioBuffer st) (unat (audioBufferPos st))),
              Serial (HttpError (httpCode (response n))), HttpEnd, Led LOW]
         \<and> posts (trace st') = posts (trace st) + 1
         \<and> playbacks (trace st') = playbacks (trace st)
         \<and> audioBuffer st' = audioBuffer st"
    by (simp add: sendAudioToServer_error)
next
  fix st'
  assume a: "sendAudioToServer n st = Inr st'
          \<and> (playbacks (trace st') \<noteq> playbacks (trace st) \<or> audioBuffer st' \<noteq> audioBuffer st)"
  show "wifiConnected n"
  proof (rule ccontr)
    assume "\<not> wifiConnected n"
    from sendAudioToServer_offline [OF this, of st] a show False by auto
  qed
  show "httpCode (response n) = 200"
  proof (rule ccontr)
    assume c: "httpCode (response n) \<noteq> 200"
    show False
    proof (cases "wifiConnected n")
      case True
      from sendAudioToServer_error [OF True c, of st] a show False by auto
    next
      case False
      from sendAudioToServer_offline [OF False, of st] a show False by auto
    qed
  qed
next
  fix f
  assume a: "sendAudioToServer n st = Inl f"
  show "wifiConnected n"
  proof (rule ccontr)
    assume "\<not> wifiConnected n"
    from sendAudioToServer_offline [OF this, of st] a show False by simp
  qed
  then show "httpCode (response n) = 200"
    using sendAudioToServer_error [of n st] a by auto
qed

theorem only_status_200_is_success_witness:
  "(\<exists>st'. sendAudioToServer (online no_content_answer) after_short_recording = Inr st'
         \<and> trace st' =
             [Serial (Sending 46), Led HIGH,
              HttpPost (buffer_bytes (writeWavHeader (\<lambda>i. 7) 2) 46),
              Serial (HttpError 204), HttpEnd, Led LOW]
         \<and> posts (trace st') = 1
         \<and> playbacks (trace st') = 0
         \<and> audioBuffer st' = writeWavHeader (\<lambda>i. 7) 2)
   \<and> (\<exists>st'. sendAudioToServer (online wav_answer) after_short_recording = Inr st'
         \<and> playbacks (trace st') \<noteq> playbacks (trace after_short_recording)
         \<and> wifiConnected (online wav_answer) \<and> httpCode (response (online wav_answer)) = 200)"
proof -
  from sendAudioToServer_audio [of "online wav_answer" after_short_recording]
  obtain st' where st': "sendAudioToServer (online wav_answer) after_short_recording = Inr st'"
    "playbacks (trace st') = playbacks (trace after_short_recording) + 1"
    by (auto simp add: online_def wav_answer_def startsWith_def config poll_yield_def
        split: sum.splits)
  from only_status_200_is_success [of "online wav_answer" after_short_recording] st'
  have "wifiConnected (online wav_answer) \<and> httpCode (response (online wav_answer)) = 200"
    by auto
  with st' only_status_200_is_success [of "online no_content_answer" after_short_recording]
  show ?thesis
    by (simp add: online_def no_content_answer_def after_short_recording_def)
qed

text \<open>C7. In the receive loop of an audio response (declared length above 44 and
  within the buffer): a poll that finds nothing available is followed by \<open>delay(1)\<close>
  and the next poll, with the count and the buffer as they were; and the loop ends only
  with \<open>bytesRead\<close> equal to the declared length, which happens exactly when the polls
  deliver that many bytes. Until then it is still running.\<close>

theorem receive_loop_waits_for_declared_length:
  assumes "int WAV_HEADER_SIZE < len" and "len \<le> int (MAX_AUDIO_BYTES + WAV_HEADER_SIZE)"
  shows "(available p = 0 \<and> b < word_of_int len \<longrightarrow>
            read_response len (p # ps) b st = read_response len ps b (emit (Delay 1) st))
       \<and> (case read_response len ps 0 st of
             Inl f \<Rightarrow> f = Unfinished \<and> sum_list (map poll_yield ps) < nat len
           | Inr (n, st') \<Rightarrow> unat n = nat len \<and> nat len \<le> sum_list (map poll_yield ps))"
proof -
  let ?L = "word_of_int len :: size_t"
  have len: "0 \<le> len" "len \<le> int BUFFER_SIZE"
    using assms by (simp_all add: BUFFER_SIZE_def)
  have uL: "unat ?L = nat len"
    using len by (rule unat_word_of_int_len)
  have cap: "unat ?L \<le> BUFFER_SIZE"
    using len by (simp add: uL)
  from read_response_run [OF cap refl, of 0 ps st]
  have "case read_response len ps 0 st of
             Inl f \<Rightarrow> f = Unfinished \<and> sum_list (map poll_yield ps) < nat len
           | Inr (n, st') \<Rightarrow> unat n = nat len \<and> nat len \<le> sum_list (map poll_yield ps)"
    by (auto simp add: uL split: sum.splits)
  then show ?thesis by simp
qed

theorem receive_loop_waits_for_declared_length_witness:
  "read_response 46 (stream wav_answer) 0 after_short_recording
     = read_response 46 (tl (stream wav_answer)) 0 (emit (Delay 1) after_short_recording)
   \<and> (case read_response 46 (stream wav_answer) 0 after_short_recording of
         Inl f \<Rightarrow> False
       | Inr (n, st') \<Rightarrow> unat n = 46)
   \<and> (case read_response 46 [\<lparr>available = 0, incoming = []\<rparr>] 0 after_short_recording of
         Inl f \<Rightarrow> f = Unfinished
       | Inr (n, st') \<Rightarrow> False)"
proof -
  have h: "int WAV_HEADER_SIZE < 46" "46 \<le> int (MAX_AUDIO_BYTES + WAV_HEADER_SIZE)"
    by (simp_all add: config)
  note w = receive_loop_waits_for_declared_length [OF h]
  have 1: "read_response 46 (stream wav_answer) 0 after_short_recording
     = read_response 46 (tl (stream wav_answer)) 0 (emit (Delay 1) after_short_recording)"
    using w [of "\<lparr>available = 0, incoming = []\<rparr>" 0
        "[\<lparr>available = 46, incoming = replicate 46 1\<rparr>]" after_short_recording]
    by (simp add: wav_answer_def)
  have 2: "case read_response 46 (stream wav_answer) 0 after_short_recording of
         Inl f \<Rightarrow> False
       | Inr (n, st') \<Rightarrow> unat n = 46"
    using w [of "\<lparr>available = 0, incoming = []\<rparr>" 0 "stream wav_answer" after_short_recording]
    by (auto simp add: wav_answer_def poll_yield_def split: sum.splits)
  have 3: "case read_response 46 [\<lparr>available = 0, incoming = []\<rparr>] 0 after_short_recording of
         Inl f \<Rightarrow> f = Unfinished
       | Inr (n, st') \<Rightarrow> False"
    using w [of "\<lparr>available = 0, incoming = []\<rparr>" 0 "[\<lparr>available = 0, incoming = []\<rparr>]" after_short_recording]
    by (auto simp add: poll_yield_def split: sum.splits)
  from 1 2 3 show ?thesis by simp
qed

section \<open>The duration check\<close>

lemma bit_length_pos: "0 < n \<Longrightarrow> 0 < bit_length n"
  by (subst bit_length.simps) simp

lemma bit_length_bounds:
  "0 < n \<Longrightarrow> 2 ^ (bit_length n - 1) \<le> n \<and> n < 2 ^ bit_length n"
proof (induction n rule: bit_length.induct)
  case (1 n)
  show ?case
  proof (cases "n div 2 = 0")
    case True
    with 1(2) have "n = 1" by (simp add: div_eq_0_iff) 
    then show ?thesis by (simp add: bit_length.simps)
  next
    case False
    then have pos: "0 < n div 2" by simp
    define P :: nat where "P = 2 ^ (bit_length (n div 2) - 1)"
    from 1(1) [OF _ pos] 1(2)
    have ih: "P \<le> n div 2" "n div 2 < 2 ^ bit_length (n div 2)"
      by (simp_all add: P_def)
    have bl: "bit_length n = Suc (bit_length (n div 2))"
      using 1(2) by (subst bit_length.simps) simp
    have e: "2 ^ bit_length (n div 2) = 2 * P"
      using bit_length_pos [OF pos] by (cases "bit_length (n div 2)") (simp_all add: P_def)
    have lo: "2 ^ (bit_length n - 1) = 2 * P" and hi: "2 ^ bit_length n = 4 * P"
      using e by (simp_all add: bl)
    have "2 * (n div 2) \<le> n" by simp
    moreover have "n < 2 * (n div 2) + 2" by presburger
    ultimately have "2 * P \<le> n \<and> n < 4 * P"
      using ih unfolding e by linarith
    then show ?thesis
      unfolding lo hi .
  qed
qed

lemma ilog2_bounds:
  assumes "0 < x"
  shows "2 powi ilog2 x \<le> x" and "x < 2 powi (ilog2 x + 1)"
proof -
  have "2 powi ilog2 x \<le> x \<and> x < 2 powi (ilog2 x + 1)"
  proof (cases "1 \<le> x")
    case True
    define k where "k = nat \<lfloor>x\<rfloor>"
    have k: "0 < k" "of_nat k \<le> x" "x < of_nat k + 1"
      using True by (simp_all add: k_def) linarith+
    from bit_length_bounds [OF k(1)]
    have b: "2 ^ (bit_length k - 1) \<le> k" "k < 2 ^ bit_length k" by simp_all
    have blpos: "0 < bit_length k" using k(1) by (rule bit_length_pos)
    have e: "ilog2 x = int (bit_length k - 1)" "ilog2 x + 1 = int (bit_length k)"
      using True blpos by (simp_all add: ilog2_def k_def)
    have p: "2 powi ilog2 x = (2::rat) ^ (bit_length k - 1)"
      "2 powi (ilog2 x + 1) = (2::rat) ^ bit_length k"
      by (simp only: e(1) power_int_of_nat, simp only: e(2) power_int_of_nat)
    have "(of_nat (2 ^ (bit_length k - 1)) :: rat) \<le> of_nat k"
      using b(1) by (simp only: of_nat_le_iff)
    then have lo: "(2::rat) ^ (bit_length k - 1) \<le> of_nat k" by simp
    have "k + 1 \<le> 2 ^ bit_length k" using b(2) by simp
    then have "(of_nat (k + 1) :: rat) \<le> of_nat (2 ^ bit_length k)"
      by (simp only: of_nat_le_iff)
    then have hi: "of_nat k + (1::rat) \<le> 2 ^ bit_length k" by simp
    show ?thesis
      unfolding p using k(2,3) lo hi by linarith
  next
    case False
    define m where "m = nat (\<lceil>1 / x\<rceil> - 1)"
    have y: "1 < 1 / x" using False assms by simp
    then have c: "2 \<le> \<lceil>1 / x\<rceil>" by linarith
    then have m: "0 < m" "of_nat m < 1 / x" "1 / x \<le> of_nat m + 1"
      by (simp_all add: m_def) linarith+
    from bit_length_bounds [OF m(1)]
    have b: "2 ^ (bit_length m - 1) \<le> m" "m < 2 ^ bit_length m" by simp_all
    have blpos: "0 < bit_length m" using m(1) by (rule bit_length_pos)
    have e: "ilog2 x = - int (bit_length m)" "ilog2 x + 1 = - int (bit_length m - 1)"
      using False blpos by (simp_all add: ilog2_def m_def)
    have p: "2 powi ilog2 x = 1 / (2::rat) ^ bit_length m"
      "2 powi (ilog2 x + 1) = 1 / (2::rat) ^ (bit_length m - 1)"
      by (simp only: e(1) power_int_minus power_int_of_nat inverse_eq_divide,
          simp only: e(2) power_int_minus power_int_of_nat inverse_eq_divide)
    have "(of_nat (2 ^ (bit_length m - 1)) :: rat) \<le> of_nat m"
      using b(1) by (simp only: of_nat_le_iff)
    then have "(2::rat) ^ (bit_length m - 1) \<le> of_nat m" by simp
    then have lo: "(2::rat) ^ (bit_length m - 1) < 1 / x" using m(2) by linarith
    have "m + 1 \<le> 2 ^ bit_length m" using b(2) by simp
    then have "(of_nat (m + 1) :: rat) \<le> of_nat (2 ^ bit_length m)"
      by (simp only: of_nat_le_iff)
    then have "of_nat m + 1 \<le> (2::rat) ^ bit_length m" by simp
    then have hi: "1 / x \<le> (2::rat) ^ bit_length m" using m(3) by linarith
    have "1 / (2::rat) ^ bit_length m \<le> x"
      using hi assms by (simp add: field_simps)
    moreover have "x < 1 / (2::rat) ^ (bit_length m - 1)"
      using lo assms by (simp add: field_simps)
    ultimately show ?thesis
      unfolding p by simp
  qed
  then show "2 powi ilog2 x \<le> x" and "x < 2 powi (ilog2 x + 1)" by simp_all
qed

lemma round_half_even_bounds:
  "r - 1 / 2 \<le> of_int (round_half_even r)" "of_int (round_half_even r) \<le> r + 1 / 2"
proof -
  define f where "f = \<lfloor>r\<rfloor>"
  have fl: "of_int f \<le> r" "r < of_int f + 1"
    unfolding f_def by linarith+
  consider "r - of_int f < 1 / 2" | "1 / 2 < r - of_int f" | "r - of_int f = 1 / 2"
    by linarith
  then have "r - 1 / 2 \<le> of_int (round_half_even r) \<and> of_int (round_half_even r) \<le> r + 1 / 2"
  proof cases
    case 1
    then have "round_half_even r = f"
      by (simp add: round_half_even_def Let_def f_def)
    with 1 fl show ?thesis by simp
  next
    case 2
    then have "round_half_even r = f + 1"
      by (simp add: round_half_even_def Let_def f_def)
    with 2 fl show ?thesis by simp
  next
    case 3
    then have "round_half_even r = f \<or> round_half_even r = f + 1"
      by (simp add: round_half_even_def Let_def f_def)
    with 3 show ?thesis by auto
  qed
  then show "r - 1 / 2 \<le> of_int (round_half_even r)"
    and "of_int (round_half_even r) \<le> r + 1 / 2"
    by simp_all
qed

lemma round_half_even_of_int: "round_half_even (of_int k) = k"
  by (simp add: round_half_even_def)

lemma fp_round_pos:
  "0 < x \<Longrightarrow> fp_round p x
      = of_int (round_half_even (x / 2 powi (ilog2 x - (int p - 1)))) * 2 powi (ilog2 x - (int p - 1))"
  by (simp add: fp_round_def Let_def)

lemma ulp_le:
  assumes "0 < x"
  shows "2 powi (ilog2 x - (int p - 1)) * 2 ^ p \<le> 2 * x"
proof -
  have "(2::rat) powi (ilog2 x - (int p - 1)) * 2 ^ p
          = 2 powi (ilog2 x - (int p - 1)) * 2 powi (int p)"
    by simp
  also have "\<dots> = 2 powi ((ilog2 x - (int p - 1)) + int p)"
    by (rule power_int_add [symmetric]) simp
  also have "(ilog2 x - (int p - 1)) + int p = ilog2 x + 1"
    by simp
  also have "(2::rat) powi (ilog2 x + 1) = 2 powi ilog2 x * 2 powi 1"
    by (rule power_int_add) simp
  also have "\<dots> = 2 * 2 powi ilog2 x"
    by simp
  also have "\<dots> \<le> 2 * x"
    using ilog2_bounds(1) [OF assms] by simp
  finally show ?thesis .
qed

lemma fp_round_error:
  assumes "0 < x"
  shows "x - x / 2 ^ p \<le> fp_round p x" and "fp_round p x \<le> x + x / 2 ^ p"
proof -
  define u :: rat where "u = 2 powi (ilog2 x - (int p - 1))"
  have u: "0 < u" by (simp add: u_def)
  define r where "r = round_half_even (x / u)"
  have fp: "fp_round p x = of_int r * u"
    using assms by (simp add: fp_round_pos u_def r_def)
  have "u * 2 ^ p \<le> 2 * x"
    unfolding u_def by (rule ulp_le [OF assms])
  then have half: "u / 2 \<le> x / 2 ^ p"
    by (simp add: field_simps)
  have "x / u - 1 / 2 \<le> of_int r" "of_int r \<le> x / u + 1 / 2"
    unfolding r_def by (rule round_half_even_bounds(1), rule round_half_even_bounds(2))
  then have "(x / u - 1 / 2) * u \<le> of_int r * u" "of_int r * u \<le> (x / u + 1 / 2) * u"
    using u by (simp_all only: mult_le_cancel_right_pos)
  moreover have "(x / u - 1 / 2) * u = x - u / 2" "(x / u + 1 / 2) * u = x + u / 2"
    using u by (simp_all add: field_simps)
  ultimately have "x - u / 2 \<le> of_int r * u" "of_int r * u \<le> x + u / 2"
    by simp_all
  with half show "x - x / 2 ^ p \<le> fp_round p x" and "fp_round p x \<le> x + x / 2 ^ p"
    unfolding fp by linarith+
qed

lemma int_ge_from_half:
  fixes r k :: int
  assumes "of_int k - 1 < (of_int r :: rat)"
  shows "k \<le> r"
proof -
  have "(of_int k :: rat) < of_int r + 1" using assms by linarith
  then have "(of_int k :: rat) < of_int (r + 1)" by simp
  then have "k < r + 1" by (simp only: of_int_less_iff)
  then show ?thesis by simp
qed

lemma fp_round_ge_pow:
  assumes "0 < x" and "0 < p"
  shows "2 powi ilog2 x \<le> fp_round p x"
proof -
  define u :: rat where "u = 2 powi (ilog2 x - (int p - 1))"
  have u: "0 < u" by (simp add: u_def)
  define r where "r = round_half_even (x / u)"
  have fp: "fp_round p x = of_int r * u"
    using assms by (simp add: fp_round_pos u_def r_def)
  have "(2::rat) powi ilog2 x = 2 powi ((ilog2 x - (int p - 1)) + (int p - 1))"
    by simp
  also have "\<dots> = u * 2 powi (int p - 1)"
    unfolding u_def by (rule power_int_add) simp
  also have "int p - 1 = int (p - 1)"
    using assms(2) by simp
  finally have pw: "(2::rat) powi ilog2 x = u * 2 ^ (p - 1)"
    by simp
  have "u * 2 ^ (p - 1) \<le> x"
    using ilog2_bounds(1) [OF assms(1)] by (simp add: pw)
  then have "2 ^ (p - 1) \<le> x / u"
    using u by (simp add: field_simps)
  moreover have "x / u - 1 / 2 \<le> of_int r"
    unfolding r_def by (rule round_half_even_bounds(1))
  ultimately have "of_int (2 ^ (p - 1)) - 1 < (of_int r :: rat)"
    by simp
  then have "2 ^ (p - 1) \<le> r"
    by (rule int_ge_from_half)
  then have "(of_int (2 ^ (p - 1)) :: rat) \<le> of_int r"
    by (simp only: of_int_le_iff)
  then have "2 ^ (p - 1) * u \<le> of_int r * u"
    using u by simp
  then show ?thesis
    by (simp add: pw fp mult.commute)
qed

lemma fp_round_nat_exact:
  assumes "0 < n" and "n < 2 ^ 24"
  shows "fp_round 24 (of_nat n) = of_nat n"
proof -
  define e where "e = ilog2 (of_nat n)"
  have x: "(0::rat) < of_nat n" using assms(1) by simp
  have "(2::rat) powi e \<le> of_nat n" "(of_nat n :: rat) < 2 powi (e + 1)"
    unfolding e_def by (rule ilog2_bounds(1) [OF x], rule ilog2_bounds(2) [OF x])
  moreover have "(1::rat) \<le> of_nat n" "(of_nat n :: rat) < 2 powi 24"
    using assms by (simp_all add: of_nat_less_numeral_power_cancel_iff Suc_le_eq [symmetric])
  ultimately have h: "(2::rat) powi e < 2 powi 24" "(1::rat) < 2 powi (e + 1)"
    by simp_all
  have "e < 24"
    using power_int_le_imp_less_exp [of "2::rat" e 24] h(1) by simp
  moreover have "0 < e + 1"
  proof (rule ccontr)
    assume "\<not> 0 < e + 1"
    then have "(2::rat) powi (e + 1) \<le> 2 powi 0"
      by (intro power_int_increasing) simp_all
    with h(2) show False by simp
  qed
  ultimately have e: "0 \<le> e" "e \<le> 23" by simp_all
  define j where "j = nat (23 - e)"
  have "23 - e = int j" using e by (simp add: j_def)
  then have "e - 23 = - int j" by simp
  then have u: "(2::rat) powi (e - 23) = 1 / 2 ^ j"
    by (simp add: power_int_minus inverse_eq_divide)
  have fp: "fp_round 24 (of_nat n)
      = of_int (round_half_even (of_nat n / 2 powi (e - 23))) * 2 powi (e - 23)"
    using x by (simp add: fp_round_pos e_def)
  have q: "of_nat n / (1 / 2 ^ j) = (of_int (int n * 2 ^ j) :: rat)"
    by simp
  show ?thesis
    unfolding fp u q round_half_even_of_int by simp
qed

lemma double_three_tenths:
  "3 / 10 - 3 / 10 / 2 ^ 53 \<le> fp_round 53 (3 / 10)"
  "fp_round 53 (3 / 10) \<le> 3 / 10 + 3 / 10 / 2 ^ 53"
  by (rule fp_round_error(1), simp, rule fp_round_error(2), simp)

lemma float_at_least_three_tenths:
  assumes "3 / 10 \<le> x"
  shows "10066330 / 2 ^ 25 \<le> fp_round 24 x"
proof -
  have x: "0 < x" using assms by simp
  define e where "e = ilog2 x"
  have b: "2 powi e \<le> x" "x < 2 powi (e + 1)"
    unfolding e_def by (rule ilog2_bounds(1) [OF x], rule ilog2_bounds(2) [OF x])
  have e: "- 2 \<le> e"
  proof (rule ccontr)
    assume "\<not> - 2 \<le> e"
    then have "(2::rat) powi (e + 1) \<le> 2 powi (- 2)"
      by (intro power_int_increasing) simp_all
    with b(2) assms show False by (simp add: power_int_minus)
  qed
  show ?thesis
  proof (cases "e = - 2")
    case True
    define r where "r = round_half_even (x / 2 powi (- 25))"
    have fp: "fp_round 24 x = of_int r * 2 powi (- 25)"
      using x True by (simp add: fp_round_pos e_def [symmetric] r_def)
    have p: "(2::rat) powi (- 25) = 1 / 2 ^ 25"
      by (simp add: power_int_minus)
    have "x / 2 powi (- 25) - 1 / 2 \<le> of_int r"
      unfolding r_def by (rule round_half_even_bounds(1))
    moreover have "3 / 10 * 2 ^ 25 \<le> x / 2 powi (- 25)"
      using assms unfolding p by simp
    ultimately have "of_int 10066330 - 1 < (of_int r :: rat)"
      by simp
    then have "10066330 \<le> r"
      by (rule int_ge_from_half)
    then have "(of_int 10066330 :: rat) \<le> of_int r"
      by (simp only: of_int_le_iff)
    then show ?thesis
      unfolding fp p by simp
  next
    case False
    with e have "- 1 \<le> e" by simp
    then have "(2::rat) powi (- 1) \<le> 2 powi e"
      by (intro power_int_increasing) simp_all
    moreover have "2 powi e \<le> fp_round 24 x"
      unfolding e_def by (rule fp_round_ge_pow [OF x]) simp
    ultimately show ?thesis
      by (simp add: power_int_minus)
  qed
qed

lemma float_below_three_tenths:
  assumes "0 \<le> x" and "x \<le> 9599 / 32000"
  shows "fp_round 24 x \<le> 9599 / 32000 + 9599 / 32000 / 2 ^ 24"
proof (cases "x = 0")
  case True
  then show ?thesis by (simp add: fp_round_def)
next
  case False
  with assms(1) have "0 < x" by simp
  from fp_round_error(2) [OF this, of 24]
  have "fp_round 24 x \<le> x + x / 2 ^ 24" .
  also have "\<dots> \<le> 9599 / 32000 + 9599 / 32000 / 2 ^ 24"
    using assms(2) by simp
  finally show ?thesis .
qed

lemma not_meaningful_below:
  assumes "0 \<le> x" and "x \<le> 9599 / 32000"
  shows "\<not> meaningful (fp_round 24 x)"
  using float_below_three_tenths [OF assms] double_three_tenths(1)
  by (simp add: meaningful_def)

lemma meaningful_from:
  assumes "3 / 10 \<le> x"
  shows "meaningful (fp_round 24 x)"
  using float_at_least_three_tenths [OF assms] double_three_tenths(2)
  by (simp add: meaningful_def)

lemma float_of_large_size:
  assumes "2 ^ 24 \<le> n"
  shows "2 ^ 24 \<le> fp_round 24 (of_nat n)"
proof -
  have n: "(2::rat) ^ 24 \<le> of_nat n"
    using assms by (metis of_nat_le_iff of_nat_numeral of_nat_power)
  then have x: "(0::rat) < of_nat n" by simp
  define e where "e = ilog2 (of_nat n)"
  have b: "(of_nat n :: rat) < 2 powi (e + 1)"
    unfolding e_def by (rule ilog2_bounds(2) [OF x])
  have e: "24 \<le> e"
  proof (rule ccontr)
    assume "\<not> 24 \<le> e"
    then have "(2::rat) powi (e + 1) \<le> 2 powi 24"
      by (intro power_int_increasing) simp_all
    with b n show False by simp
  qed
  then have "(2::rat) powi 24 \<le> 2 powi e"
    by (intro power_int_increasing) simp_all
  moreover have "2 powi e \<le> fp_round 24 (of_nat n)"
    unfolding e_def by (rule fp_round_ge_pow [OF x]) simp
  ultimately show ?thesis by simp
qed

lemma meaningful_durationSecs: "meaningful (durationSecs n) \<longleftrightarrow> 9600 \<le> unat n"
proof -
  have d: "fp_round 24 (of_nat (SAMPLE_RATE * BYTES_PER_SAMPLE)) = 32000"
    using fp_round_nat_exact [of 32000] by (simp add: config)
  consider "unat n = 0" | "0 < unat n" "unat n < 2 ^ 24" | "2 ^ 24 \<le> unat n"
    by linarith
  then show ?thesis
  proof cases
    case 1
    have "\<not> meaningful 0"
      using double_three_tenths(1) by (simp add: meaningful_def)
    with 1 show ?thesis
      by (simp add: durationSecs_def fp_round_def)
  next
    case 2
    have q: "durationSecs n = fp_round 24 (of_nat (unat n) / 32000)"
      by (simp only: durationSecs_def d fp_round_nat_exact [OF 2])
    show ?thesis
    proof (cases "9600 \<le> unat n")
      case True
      then have "(of_nat 9600 :: rat) \<le> of_nat (unat n)"
        by (simp only: of_nat_le_iff)
      then have "3 / 10 \<le> (of_nat (unat n) :: rat) / 32000" by simp
      then have "meaningful (durationSecs n)"
        unfolding q by (rule meaningful_from)
      with True show ?thesis by simp
    next
      case False
      then have "unat n \<le> 9599" by simp
      then have "(of_nat (unat n) :: rat) \<le> of_nat 9599"
        by (simp only: of_nat_le_iff)
      then have "(of_nat (unat n) :: rat) / 32000 \<le> 9599 / 32000" by simp
      moreover have "0 \<le> (of_nat (unat n) :: rat) / 32000"
        by (rule divide_nonneg_pos [OF of_nat_0_le_iff]) simp
      ultimately have "\<not> meaningful (durationSecs n)"
        unfolding q by (intro not_meaningful_below)
      with False show ?thesis by simp
    qed
  next
    case 3
    from float_of_large_size [OF 3]
    have "3 / 10 \<le> fp_round 24 (of_nat (unat n)) / 32000" by simp
    then have "meaningful (durationSecs n)"
      unfolding durationSecs_def d by (rule meaningful_from)
    moreover have "9600 \<le> unat n" using 3 by simp
    ultimately show ?thesis by simp
  qed
qed

section \<open>The main loop\<close>

lemma stopRecording_effect:
  "audioBufferPos (stopRecording st) = audioBufferPos st"
  "isRecording (stopRecording st) = False"
  "lastButtonState (stopRecording st) = lastButtonState st"
  "trace (stopRecording st)
     = trace st @ [Led LOW, Serial (RecStopped (audioBufferPos st - of_nat WAV_HEADER_SIZE))]"
  "audioBuffer (stopRecording st)
     = writeWavHeader (audioBuffer st) (audioBufferPos st - of_nat WAV_HEADER_SIZE)"
  by (simp_all add: stopRecording_def Let_def emit_def)

lemma threshold_bytes:
  "9600 \<le> n \<longleftrightarrow> 3 * (SAMPLE_RATE * BYTES_PER_SAMPLE) \<le> 10 * n"
  by (simp add: config)

lemma loop_release:
  assumes "lastButtonState st = LOW" and "buttonState inp = HIGH" and "isRecording st"
  shows "loop inp st =
     (case (if 9600 \<le> unat (audioBufferPos st - of_nat WAV_HEADER_SIZE)
            then sendAudioToServer (net inp) (stopRecording st)
            else Inr (emit (Serial TooShort) (stopRecording st))) of
        Inl f \<Rightarrow> Inl f
      | Inr st4 \<Rightarrow> Inr (emit (Delay 10) (st4\<lparr>lastButtonState := HIGH\<rparr>)))"
  using assms
  by (simp add: loop_def Let_def stopRecording_effect meaningful_durationSecs)

lemma loop_release_idle:
  assumes "buttonState inp = HIGH" and "\<not> isRecording st"
  shows "loop inp st = Inr (emit (Delay 10) (st\<lparr>lastButtonState := HIGH\<rparr>))"
  using assms by (simp add: loop_def Let_def)

lemma sendAudioToServer_posts:
  assumes "wifiConnected n" and "sendAudioToServer n st = Inr st'"
  shows "posts (trace st') = posts (trace st) + 1"
proof (cases "httpCode (response n) = 200")
  case False
  from sendAudioToServer_error [OF assms(1) False, of st] assms(2) show ?thesis by auto
next
  case ok: True
  show ?thesis
  proof (cases "startsWith (contentType (response n)) ''audio/wav''
            \<and> int WAV_HEADER_SIZE < getSize (response n)")
    case False
    from sendAudioToServer_text [OF assms(1) ok False, of st] assms(2) show ?thesis by auto
  next
    case audio: True
    show ?thesis
    proof (cases "getSize (response n) \<le> int BUFFER_SIZE")
      case True
      from sendAudioToServer_audio [OF assms(1) ok _ _ True, of st] audio assms(2)
      show ?thesis by simp
    next
      case False
      then have "int BUFFER_SIZE < getSize (response n)" by simp
      from sendAudioToServer_too_large [OF assms(1) ok _ this, of st] audio assms(2)
      show ?thesis by auto
    qed
  qed
qed

text \<open>C4. At a button release that ends a running recording (\<open>isRecording\<close> still
  set): with fewer payload bytes than 0.3 s of audio
  (\<open>10 * bytes < 3 * SAMPLE_RATE * BYTES_PER_SAMPLE\<close>) the iteration finalises the header,
  prints "Too short, discarding", sends nothing and leaves the device idle; with that
  many bytes or more it calls \<open>sendAudioToServer\<close> on the finalised buffer, which with
  the link up issues one POST. The boundary is decided in \<open>float\<close>: 9600 / 32000 rounds
  to a \<open>float\<close> above the \<open>double\<close> 0.3, so exactly 0.3 s is sent.\<close>

theorem minimum_duration_policy:
  assumes "lastButtonState st = LOW" and "buttonState inp = HIGH" and "isRecording st"
  shows "(10 * unat (audioBufferPos st - of_nat WAV_HEADER_SIZE)
            < 3 * (SAMPLE_RATE * BYTES_PER_SAMPLE) \<longrightarrow>
          (\<exists>st'. loop inp st = Inr st'
             \<and> trace st' = trace (stopRecording st) @ [Serial TooShort, Delay 10]
             \<and> posts (trace st') = posts (trace st)
             \<and> \<not> isRecording st'))
       \<and> (3 * (SAMPLE_RATE * BYTES_PER_SAMPLE)
            \<le> 10 * unat (audioBufferPos st - of_nat WAV_HEADER_SIZE) \<longrightarrow>
          loop inp st =
            (case sendAudioToServer (net inp) (stopRecording st) of
               Inl f \<Rightarrow> Inl f
             | Inr st4 \<Rightarrow> Inr (emit (Delay 10) (st4\<lparr>lastButtonState := HIGH\<rparr>)))
          \<and> (\<forall>st'. wifiConnected (net inp) \<and> loop inp st = Inr st'
                 \<longrightarrow> posts (trace st') = posts (trace st) + 1))"
proof (intro conjI impI allI)
  assume "10 * unat (audioBufferPos st - of_nat WAV_HEADER_SIZE)
            < 3 * (SAMPLE_RATE * BYTES_PER_SAMPLE)"
  then have "\<not> 9600 \<le> unat (audioBufferPos st - of_nat WAV_HEADER_SIZE)"
    by (simp add: threshold_bytes)
  then show "\<exists>st'. loop inp st = Inr st'
             \<and> trace st' = trace (stopRecording st) @ [Serial TooShort, Delay 10]
             \<and> posts (trace st') = posts (trace st)
             \<and> \<not> isRecording st'"
    by (simp add: loop_release [OF assms] emit_def stopRecording_effect)
next
  assume "3 * (SAMPLE_RATE * BYTES_PER_SAMPLE)
            \<le> 10 * unat (audioBufferPos st - of_nat WAV_HEADER_SIZE)"
  then have long: "9600 \<le> unat (audioBufferPos st - of_nat WAV_HEADER_SIZE)"
    by (simp add: threshold_bytes)
  then show eq: "loop inp st =
            (case sendAudioToServer (net inp) (stopRecording st) of
               Inl f \<Rightarrow> Inl f
             | Inr st4 \<Rightarrow> Inr (emit (Delay 10) (st4\<lparr>lastButtonState := HIGH\<rparr>)))"
    by (simp add: loop_release [OF assms])
  fix st'
  assume a: "wifiConnected (net inp) \<and> loop inp st = Inr st'"
  then obtain st4 where st4: "sendAudioToServer (net inp) (stopRecording st) = Inr st4"
    "st' = emit (Delay 10) (st4\<lparr>lastButtonState := HIGH\<rparr>)"
    unfolding eq by (auto split: sum.splits)
  from sendAudioToServer_posts [OF _ st4(1)] a
  show "posts (trace st') = posts (trace st) + 1"
    by (simp add: st4(2) emit_def stopRecording_effect)
qed


lemma recording_payload:
  "n \<le> MAX_AUDIO_BYTES \<Longrightarrow>
     unat (audioBufferPos (recording n) - of_nat WAV_HEADER_SIZE) = n"
  by (simp add: recording_def config unat_of_nat_small)

theorem minimum_duration_policy_witness:
  "(\<exists>st'. loop (release (online text_answer)) (recording 9598) = Inr st'
       \<and> trace st' = [Led LOW, Serial (RecStopped 9598), Serial TooShort, Delay 10]
       \<and> posts (trace st') = 0
       \<and> \<not> isRecording st')
   \<and> (\<exists>st'. loop (release (online text_answer)) (recording 9600) = Inr st'
       \<and> posts (trace st') = 1)"
proof -
  have pre: "lastButtonState (recording n) = LOW" "buttonState (release r) = HIGH"
    "isRecording (recording n)" for n r
    by (simp_all add: recording_def release_def)
  have short: "10 * unat (audioBufferPos (recording 9598) - of_nat WAV_HEADER_SIZE)
                 < 3 * (SAMPLE_RATE * BYTES_PER_SAMPLE)"
    using recording_payload [of 9598] by (simp add: config)
  have long: "3 * (SAMPLE_RATE * BYTES_PER_SAMPLE)
                \<le> 10 * unat (audioBufferPos (recording 9600) - of_nat WAV_HEADER_SIZE)"
    using recording_payload [of 9600] by (simp add: config)
  have 1: "\<exists>st'. loop (release (online text_answer)) (recording 9598) = Inr st'
       \<and> trace st' = [Led LOW, Serial (RecStopped 9598), Serial TooShort, Delay 10]
       \<and> posts (trace st') = 0
       \<and> \<not> isRecording st'"
    using minimum_duration_policy [OF pre, of 9598 "online text_answer"] short
    by (simp add: stopRecording_effect) (simp add: recording_def config)
  obtain st4 where st4:
    "sendAudioToServer (net (release (online text_answer))) (stopRecording (recording 9600))
       = Inr st4"
    by (simp add: sendAudioToServer_text release_def online_def text_answer_def startsWith_def)
  have 2: "\<exists>st'. loop (release (online text_answer)) (recording 9600) = Inr st'
       \<and> posts (trace st') = 1"
    using minimum_duration_policy [OF pre, of 9600 "online text_answer"] long st4
    by (simp add: release_def online_def) (simp add: recording_def)
  from 1 2 show ?thesis by simp
qed

text \<open>C9. At the release of a recording of at least 0.3 s with the link down:
  \<open>sendAudioToServer\<close> only prints "WiFi not connected, skipping send", so no POST is
  issued, buffer and cursor are as \<open>stopRecording\<close> left them, and the device is idle.\<close>

theorem no_link_skips_exchange:
  assumes "lastButtonState st = LOW" and "buttonState inp = HIGH" and "isRecording st"
    and "3 * (SAMPLE_RATE * BYTES_PER_SAMPLE)
           \<le> 10 * unat (audioBufferPos st - of_nat WAV_HEADER_SIZE)"
    and "\<not> wifiConnected (net inp)"
  shows "sendAudioToServer (net inp) (stopRecording st)
           = Inr (emit (Serial WifiNotConnected) (stopRecording st))
       \<and> (\<exists>st'. loop inp st = Inr st'
             \<and> trace st' = trace (stopRecording st) @ [Serial WifiNotConnected, Delay 10]
             \<and> posts (trace st') = posts (trace st)
             \<and> audioBuffer st' = audioBuffer (stopRecording st)
             \<and> audioBufferPos st' = audioBufferPos st
             \<and> \<not> isRecording st')"
proof -
  have long: "9600 \<le> unat (audioBufferPos st - of_nat WAV_HEADER_SIZE)"
    using assms(4) by (simp add: threshold_bytes)
  have send: "sendAudioToServer (net inp) (stopRecording st)
           = Inr (emit (Serial WifiNotConnected) (stopRecording st))"
    using assms(5) by (simp add: sendAudioToServer_offline emit_def)
  show ?thesis
    using long by (simp add: loop_release [OF assms(1-3)] send emit_def stopRecording_effect)
qed

theorem no_link_skips_exchange_witness:
  "sendAudioToServer (net (release (offline wav_answer))) (stopRecording (recording 9600))
           = Inr (emit (Serial WifiNotConnected) (stopRecording (recording 9600)))
   \<and> (\<exists>st'. loop (release (offline wav_answer)) (recording 9600) = Inr st'
         \<and> trace st' = [Led LOW, Serial (RecStopped 9600), Serial WifiNotConnected, Delay 10]
         \<and> posts (trace st') = 0
         \<and> audioBuffer st' = writeWavHeader (\<lambda>i. 7) 9600
         \<and> audioBufferPos st' = 9644
         \<and> \<not> isRecording st')"
proof -
  have long: "3 * (SAMPLE_RATE * BYTES_PER_SAMPLE)
                \<le> 10 * unat (audioBufferPos (recording 9600) - of_nat WAV_HEADER_SIZE)"
    using recording_payload [of 9600] by (simp add: config)
  show ?thesis
    using no_link_skips_exchange [of "recording 9600" "release (offline wav_answer)"] long
    by (simp add: release_def offline_def stopRecording_effect) (simp add: recording_def config)
qed

lemma captureAudioChunk_accept:
  assumes "isRecording st" and "esp_ok m"
    and "0 < length (take I2S_READ_BUF_SIZE (samples m))"
    and "unat (audioBufferPos st) + length (take I2S_READ_BUF_SIZE (samples m)) \<le> BUFFER_SIZE"
  shows "\<exists>st'. captureAudioChunk m st = Inr st' \<and> isRecording st'
           \<and> lastButtonState st' = lastButtonState st \<and> trace st' = trace st
           \<and> unat (audioBufferPos st')
               = unat (audioBufferPos st) + length (take I2S_READ_BUF_SIZE (samples m))
           \<and> (\<forall>i. i < unat (audioBufferPos st) \<longrightarrow> audioBuffer st' i = audioBuffer st i)"
proof -
  let ?chunk = "take I2S_READ_BUF_SIZE (samples m)"
  have len: "length ?chunk \<le> I2S_READ_BUF_SIZE" by simp
  have pos: "unat (audioBufferPos st) \<le> BUFFER_SIZE"
    using assms(4) by simp
  note rc = room_check [OF pos len]
  have nz: "(0 < (of_nat (length ?chunk) :: size_t)) \<longleftrightarrow> 0 < length ?chunk"
    using unat_chunk_length [of "samples m"] by (simp add: word_less_nat_alt)
  show ?thesis
    using assms rc nz
    by (auto simp add: captureAudioChunk_def Let_def buffer_write_def simp del: length_take)
qed

lemma captureAudioChunk_full:
  assumes "isRecording st" and "esp_ok m"
    and "unat (audioBufferPos st) \<le> BUFFER_SIZE"
    and "BUFFER_SIZE < unat (audioBufferPos st) + length (take I2S_READ_BUF_SIZE (samples m))"
  shows "captureAudioChunk m st
           = Inr (st\<lparr>isRecording := False, trace := trace st @ [Serial BufferFull, Led LOW]\<rparr>)"
proof -
  let ?chunk = "take I2S_READ_BUF_SIZE (samples m)"
  have len: "length ?chunk \<le> I2S_READ_BUF_SIZE" by simp
  note rc = room_check [OF assms(3) len]
  have nz: "(0 < (of_nat (length ?chunk) :: size_t)) \<longleftrightarrow> 0 < length ?chunk"
    using unat_chunk_length [of "samples m"] by (simp add: word_less_nat_alt)
  show ?thesis
    using assms rc nz
    by (auto simp add: captureAudioChunk_def Let_def emit_def simp del: length_take)
qed

lemma full_chunk_read:
  "esp_ok full_chunk" "length (take I2S_READ_BUF_SIZE (samples full_chunk)) = 1024"
  by (simp_all add: full_chunk_def I2S_READ_BUF_SIZE_def)

lemma loop_press:
  assumes "lastButtonState st = HIGH"
  shows "\<exists>st'. loop (hold n) st = Inr st' \<and> isRecording st' \<and> lastButtonState st' = LOW
           \<and> unat (audioBufferPos st') = 44 + 1024
           \<and> posts (trace st') = posts (trace st)
           \<and> (\<forall>i. i < 44 \<longrightarrow> audioBuffer st' i = audioBuffer st i)"
proof -
  let ?st1 = "startRecording st"
  have s: "isRecording ?st1" "unat (audioBufferPos ?st1) = 44" "lastButtonState ?st1 = HIGH"
    "audioBuffer ?st1 = audioBuffer st" "trace ?st1 = trace st @ [Led HIGH, Serial RecStarted]"
    using assms by (simp_all add: startRecording_def emit_def config)
  from captureAudioChunk_accept [OF s(1) full_chunk_read(1), unfolded full_chunk_read(2) s(2)]
  obtain st2 where st2: "captureAudioChunk full_chunk ?st1 = Inr st2" "isRecording st2"
    "lastButtonState st2 = HIGH" "trace st2 = trace ?st1" "unat (audioBufferPos st2) = 44 + 1024"
    "\<forall>i. i < 44 \<longrightarrow> audioBuffer st2 i = audioBuffer ?st1 i"
    by (auto simp add: config s(3))
  show ?thesis
    using assms s st2 by (simp add: loop_def hold_def Let_def emit_def)
qed

lemma loop_hold:
  assumes "isRecording st" and "lastButtonState st = LOW"
    and "unat (audioBufferPos st) = 44 + 1024 * j" and "0 < j" and "j < 468"
  shows "\<exists>st'. loop (hold n) st = Inr st' \<and> isRecording st' \<and> lastButtonState st' = LOW
           \<and> unat (audioBufferPos st') = 44 + 1024 * Suc j
           \<and> posts (trace st') = posts (trace st)
           \<and> (\<forall>i. i < 44 \<longrightarrow> audioBuffer st' i = audioBuffer st i)"
proof -
  have room: "unat (audioBufferPos st) + 1024 \<le> BUFFER_SIZE"
    using assms(3,5) by (simp add: config)
  from captureAudioChunk_accept [OF assms(1) full_chunk_read(1), unfolded full_chunk_read(2),
      OF _ room]
  obtain st2 where st2: "captureAudioChunk full_chunk st = Inr st2" "isRecording st2"
    "lastButtonState st2 = LOW" "trace st2 = trace st"
    "unat (audioBufferPos st2) = unat (audioBufferPos st) + 1024"
    "\<forall>i. i < unat (audioBufferPos st) \<longrightarrow> audioBuffer st2 i = audioBuffer st i"
    using assms(2) by auto
  show ?thesis
    using assms st2 by (simp add: loop_def hold_def Let_def emit_def)
qed

lemma run_append:
  "run (xs @ ys) st = (case run xs st of Inl f \<Rightarrow> Inl f | Inr st' \<Rightarrow> run ys st')"
  by (induction xs arbitrary: st) (simp_all split: sum.splits)

lemma run_hold:
  assumes "isRecording st" and "lastButtonState st = LOW"
    and "unat (audioBufferPos st) = 44 + 1024 * j" and "0 < j" and "j + k \<le> 468"
  shows "\<exists>st'. run (replicate k (hold n)) st = Inr st' \<and> isRecording st'
           \<and> lastButtonState st' = LOW
           \<and> unat (audioBufferPos st') = 44 + 1024 * (j + k)
           \<and> posts (trace st') = posts (trace st)
           \<and> (\<forall>i. i < 44 \<longrightarrow> audioBuffer st' i = audioBuffer st i)"
  using assms
proof (induction k arbitrary: st j)
  case 0
  then show ?case by simp
next
  case (Suc k)
  have j: "j < 468" using Suc.prems(5) by simp
  from loop_hold [OF Suc.prems(1-4) j, of n]
  obtain st1 where st1: "loop (hold n) st = Inr st1" "isRecording st1" "lastButtonState st1 = LOW"
    "unat (audioBufferPos st1) = 44 + 1024 * Suc j" "posts (trace st1) = posts (trace st)"
    "\<forall>i. i < 44 \<longrightarrow> audioBuffer st1 i = audioBuffer st i"
    by blast
  have "Suc j + k \<le> 468" using Suc.prems(5) by simp
  from Suc.IH [OF st1(2,3,4) _ this]
  obtain st' where st': "run (replicate k (hold n)) st1 = Inr st'" "isRecording st'"
    "lastButtonState st' = LOW" "unat (audioBufferPos st') = 44 + 1024 * (Suc j + k)"
    "posts (trace st') = posts (trace st1)"
    "\<forall>i. i < 44 \<longrightarrow> audioBuffer st' i = audioBuffer st1 i"
    by auto
  show ?case
    using st1 st' by simp
qed

lemma loop_hold_full:
  assumes "isRecording st" and "lastButtonState st = LOW"
    and "unat (audioBufferPos st) = 44 + 1024 * 468"
  shows "loop (hold n) st
           = Inr (st\<lparr>isRecording := False,
                      trace := trace st @ [Serial BufferFull, Led LOW, Delay 10]\<rparr>)"
proof -
  have "captureAudioChunk full_chunk st
          = Inr (st\<lparr>isRecording := False, trace := trace st @ [Serial BufferFull, Led LOW]\<rparr>)"
    using captureAudioChunk_full [OF assms(1) full_chunk_read(1), unfolded full_chunk_read(2)]
      assms(3)
    by (simp add: config)
  then show ?thesis
    using assms by (simp add: loop_def hold_def Let_def emit_def)
qed

lemma loop_hold_idle:
  assumes "\<not> isRecording st" and "lastButtonState st = LOW"
  shows "loop (hold n) st = Inr (st\<lparr>trace := trace st @ [Delay 10]\<rparr>)"
  using assms by (simp add: loop_def hold_def Let_def emit_def)

text \<open>The same press released one iteration before the buffer is full, for
  comparison: 468 chunks are stored, the header is finalised and one POST goes out.\<close>

lemma release_before_full_is_sent:
  "case run (replicate 468 (hold (online text_answer)) @ [release (online text_answer)])
          (initial (\<lambda>i. 0)) of
     Inl f \<Rightarrow> False
   | Inr st \<Rightarrow>
       \<not> isRecording st \<and> lastButtonState st = HIGH
     \<and> unat (audioBufferPos st) = 44 + 468 * 1024
     \<and> posts (trace st) = 1
     \<and> tag_at (buffer_bytes (audioBuffer st) WAV_HEADER_SIZE) 0 ''RIFF''
     \<and> le32_at (buffer_bytes (audioBuffer st) WAV_HEADER_SIZE) 40 = 468 * 1024"
proof -
  let ?h = "hold (online text_answer)"
  let ?r = "release (online text_answer)"
  let ?st0 = "initial (\<lambda>i. 0)"
  have split: "replicate 468 ?h @ [?r] = [?h] @ replicate 467 ?h @ [?r]"
  proof -
    have "replicate 468 ?h = replicate (1 + 467) ?h" by simp
    also have "\<dots> = [?h] @ replicate 467 ?h"
      by (simp only: replicate_add) simp
    finally show ?thesis by simp
  qed
  have i: "lastButtonState ?st0 = HIGH" "posts (trace ?st0) = 0"
    by (simp_all add: initial_def)
  from loop_press [OF i(1), of "online text_answer"]
  obtain st1 where st1: "loop ?h ?st0 = Inr st1" "isRecording st1" "lastButtonState st1 = LOW"
    "unat (audioBufferPos st1) = 44 + 1024 * 1" "posts (trace st1) = 0"
    by (auto simp add: i)
  from run_hold [OF st1(2,3,4), of 467 "online text_answer"]
  obtain st2 where st2: "run (replicate 467 ?h) st1 = Inr st2" "isRecording st2"
    "lastButtonState st2 = LOW" "unat (audioBufferPos st2) = 44 + 1024 * 468"
    "posts (trace st2) = 0"
    using st1(5) by auto
  have "in_bounds st2"
    using st2(4) by (simp add: in_bounds_def config)
  from unat_payload_size [OF this]
  have size: "unat (audioBufferPos st2 - of_nat WAV_HEADER_SIZE) = 468 * 1024"
    using st2(4) by (simp add: config)
  then have sz: "audioBufferPos st2 - of_nat WAV_HEADER_SIZE = 468 * 1024"
    by (simp add: word_unat_eq_iff)
  define st3 where "st3 = stopRecording st2"
  define st4 where "st4 = st3\<lparr>trace := trace st3 @
       [Serial (Sending (audioBufferPos st3)), Led HIGH,
        HttpPost (buffer_bytes (audioBuffer st3) (unat (audioBufferPos st3))),
        Serial (ResponseReceived 200), Serial (ServerResponse (getString (response (online text_answer)))),
        HttpEnd, Led LOW]\<rparr>"
  have send: "sendAudioToServer (online text_answer) st3 = Inr st4"
    unfolding st4_def
    by (rule sendAudioToServer_text)
       (simp_all add: online_def text_answer_def startsWith_def)
  define st5 where "st5 = emit (Delay 10) (st4\<lparr>lastButtonState := HIGH\<rparr>)"
  have st5: "loop ?r st2 = Inr st5"
    using loop_release [OF st2(3) _ st2(2), of ?r] size send
    by (simp add: release_def st3_def st5_def)
  have run: "run (replicate 468 ?h @ [?r]) ?st0 = Inr st5"
    unfolding split by (simp add: run_append st1(1) st2(1) st5)
  have buf: "audioBuffer st5 = audioBuffer (stopRecording st2)"
    by (simp add: st5_def st4_def st3_def emit_def)
  have "tag_at (buffer_bytes (audioBuffer st5) WAV_HEADER_SIZE) 0 ''RIFF''"
    unfolding buf stopRecording_effect(5)
    by (rule writeWavHeader_tags(1)) (simp add: config)
  moreover have "le32_at (buffer_bytes (audioBuffer st5) WAV_HEADER_SIZE) 40 = 468 * 1024"
    unfolding buf by (simp only: stopRecording_declared_length sz)
  ultimately show ?thesis
    unfolding run using st2(4,5)
    by (simp add: st5_def st4_def st3_def emit_def stopRecording_effect)
qed

text \<open>C1 on the code. The button is held from power-up through 470 iterations, each
  reading a full 1024-byte chunk, and then released, with the link up. The 469th chunk
  does not fit: capture stops there with 468 chunks stored. The release then finds
  \<open>isRecording\<close> cleared, so \<open>stopRecording\<close> and \<open>sendAudioToServer\<close> are not
  reached: no POST is issued and the header bytes are still those of the fresh buffer.\<close>

theorem full_buffer_recording_is_dropped:
  "case run (replicate 470 (hold (online text_answer)) @ [release (online text_answer)])
          (initial (\<lambda>i. 0)) of
     Inl f \<Rightarrow> False
   | Inr st \<Rightarrow>
       \<not> isRecording st \<and> lastButtonState st = HIGH
     \<and> unat (audioBufferPos st) = 44 + 468 * 1024
     \<and> posts (trace st) = 0
     \<and> buffer_bytes (audioBuffer st) 4 = [0, 0, 0, 0]"
proof -
  let ?h = "hold (online text_answer)"
  let ?r = "release (online text_answer)"
  let ?st0 = "initial (\<lambda>i. 0)"
  have split: "replicate 470 ?h @ [?r] = [?h] @ replicate 467 ?h @ [?h] @ [?h] @ [?r]"
  proof -
    have "replicate 470 ?h = replicate (1 + 467 + 1 + 1) ?h" by simp
    also have "\<dots> = [?h] @ replicate 467 ?h @ [?h] @ [?h]"
      by (simp only: replicate_add) simp
    finally show ?thesis by simp
  qed
  have i: "lastButtonState ?st0 = HIGH" "posts (trace ?st0) = 0" "audioBuffer ?st0 = (\<lambda>i. 0)"
    by (simp_all add: initial_def)
  from loop_press [OF i(1), of "online text_answer"]
  obtain st1 where st1: "loop ?h ?st0 = Inr st1" "isRecording st1" "lastButtonState st1 = LOW"
    "unat (audioBufferPos st1) = 44 + 1024 * 1" "posts (trace st1) = 0"
    "\<forall>i. i < 44 \<longrightarrow> audioBuffer st1 i = 0"
    by (auto simp add: i)
  from run_hold [OF st1(2,3,4), of 467 "online text_answer"]
  obtain st2 where st2: "run (replicate 467 ?h) st1 = Inr st2" "isRecording st2"
    "lastButtonState st2 = LOW" "unat (audioBufferPos st2) = 44 + 1024 * 468"
    "posts (trace st2) = 0" "\<forall>i. i < 44 \<longrightarrow> audioBuffer st2 i = 0"
    using st1(5,6) by auto
  define st3 where
    "st3 = st2\<lparr>isRecording := False, trace := trace st2 @ [Serial BufferFull, Led LOW, Delay 10]\<rparr>"
  have st3: "loop ?h st2 = Inr st3"
    unfolding st3_def by (rule loop_hold_full [OF st2(2,3,4)])
  define st4 where "st4 = st3\<lparr>trace := trace st3 @ [Delay 10]\<rparr>"
  have st4: "loop ?h st3 = Inr st4"
    unfolding st4_def using st2(3) by (intro loop_hold_idle) (simp_all add: st3_def)
  define st5 where "st5 = emit (Delay 10) (st4\<lparr>lastButtonState := HIGH\<rparr>)"
  have st5: "loop ?r st4 = Inr st5"
    unfolding st5_def by (intro loop_release_idle) (simp_all add: release_def st4_def st3_def)
  have run: "run (replicate 470 ?h @ [?r]) ?st0 = Inr st5"
    unfolding split by (simp add: run_append st1(1) st2(1) st3 st4 st5)
  have "buffer_bytes (audioBuffer st5) 4 = [0, 0, 0, 0]"
    using st2(6) upt_four [of 0]
    by (simp add: buffer_bytes_def st5_def st4_def st3_def emit_def numeral_3_eq_3)
  then show ?thesis
    unfolding run using st2(4,5)
    by (simp add: st5_def st4_def st3_def emit_def)
qed

subsection \<open>What the buffer holds after a press that fills it\<close>

lemma captureAudioChunk_stores:
  assumes "isRecording st" and "esp_ok m"
    and "0 < length (take I2S_READ_BUF_SIZE (samples m))"
    and "unat (audioBufferPos st) + length (take I2S_READ_BUF_SIZE (samples m)) \<le> BUFFER_SIZE"
  shows "captureAudioChunk m st =
           Inr (st\<lparr>audioBuffer :=
                      (\<lambda>i. if unat (audioBufferPos st) \<le> i
                               \<and> i < unat (audioBufferPos st)
                                     + length (take I2S_READ_BUF_SIZE (samples m))
                            then take I2S_READ_BUF_SIZE (samples m) ! (i - unat (audioBufferPos st))
                            else audioBuffer st i),
                    audioBufferPos := audioBufferPos st
                      + of_nat (length (take I2S_READ_BUF_SIZE (samples m)))\<rparr>)"
    and "unat (audioBufferPos st + of_nat (length (take I2S_READ_BUF_SIZE (samples m))))
           = unat (audioBufferPos st) + length (take I2S_READ_BUF_SIZE (samples m))"
proof -
  let ?chunk = "take I2S_READ_BUF_SIZE (samples m)"
  have len: "length ?chunk \<le> I2S_READ_BUF_SIZE" by simp
  have pos: "unat (audioBufferPos st) \<le> BUFFER_SIZE"
    using assms(4) by simp
  note rc = room_check [OF pos len]
  have nz: "(0 < (of_nat (length ?chunk) :: size_t)) \<longleftrightarrow> 0 < length ?chunk"
    using unat_chunk_length [of "samples m"] by (simp add: word_less_nat_alt)
  show "captureAudioChunk m st =
           Inr (st\<lparr>audioBuffer :=
                      (\<lambda>i. if unat (audioBufferPos st) \<le> i
                               \<and> i < unat (audioBufferPos st) + length ?chunk
                            then ?chunk ! (i - unat (audioBufferPos st))
                            else audioBuffer st i),
                    audioBufferPos := audioBufferPos st + of_nat (length ?chunk)\<rparr>)"
    using assms rc nz
    by (simp add: captureAudioChunk_def Let_def buffer_write_def del: length_take)
  show "unat (audioBufferPos st + of_nat (length ?chunk))
           = unat (audioBufferPos st) + length ?chunk"
    using assms(4) by (rule rc(2))
qed

lemma full_chunk_samples:
  "take I2S_READ_BUF_SIZE (samples full_chunk) = replicate 1024 7"
  by (simp add: full_chunk_def I2S_READ_BUF_SIZE_def)

lemma capture_full_chunk_stores:
  assumes "isRecording st" and "unat (audioBufferPos st) = WAV_HEADER_SIZE + k"
    and "k + 1024 \<le> MAX_AUDIO_BYTES" and "audioBuffer st = filled k"
  shows "\<exists>st'. captureAudioChunk full_chunk st = Inr st' \<and> isRecording st'
           \<and> lastButtonState st' = lastButtonState st \<and> trace st' = trace st
           \<and> unat (audioBufferPos st') = WAV_HEADER_SIZE + (k + 1024)
           \<and> audioBuffer st' = filled (k + 1024)"
proof -
  have room: "unat (audioBufferPos st) + length (take I2S_READ_BUF_SIZE (samples full_chunk))
                \<le> BUFFER_SIZE"
    using assms(2,3) by (simp add: full_chunk_samples BUFFER_SIZE_def)
  have nonempty: "0 < length (take I2S_READ_BUF_SIZE (samples full_chunk))"
    by (simp add: full_chunk_samples)
  note st = captureAudioChunk_stores [OF assms(1) full_chunk_read(1) nonempty room]
  have buf: "(\<lambda>i. if unat (audioBufferPos st) \<le> i
               \<and> i < unat (audioBufferPos st)
                     + length (take I2S_READ_BUF_SIZE (samples full_chunk))
            then take I2S_READ_BUF_SIZE (samples full_chunk) ! (i - unat (audioBufferPos st))
            else audioBuffer st i) = filled (k + 1024)"
    by (rule ext) (auto simp add: full_chunk_samples assms(2,4) filled_def)
  define st' where
    "st' = st\<lparr>audioBuffer := filled (k + 1024),
              audioBufferPos := audioBufferPos st
                + of_nat (length (take I2S_READ_BUF_SIZE (samples full_chunk)))\<rparr>"
  have run: "captureAudioChunk full_chunk st = Inr st'"
    unfolding st'_def buf [symmetric] by (rule st(1))
  have "unat (audioBufferPos st') = WAV_HEADER_SIZE + (k + 1024)"
    using st(2) by (simp add: st'_def full_chunk_read(2) assms(2) del: length_take)
  then show ?thesis
    using assms(1) run by (simp add: st'_def)
qed


lemma filled_nothing: "filled 0 = (\<lambda>i. 0)"
  by (rule ext) (simp add: filled_def)

lemma loop_press_stores:
  assumes "lastButtonState st = HIGH" and "audioBuffer st = filled 0"
  shows "\<exists>st'. loop (hold n) st = Inr st' \<and> isRecording st' \<and> lastButtonState st' = LOW
           \<and> unat (audioBufferPos st') = WAV_HEADER_SIZE + 1024
           \<and> audioBuffer st' = filled 1024"
proof -
  let ?st1 = "startRecording st"
  have s: "isRecording ?st1" "unat (audioBufferPos ?st1) = WAV_HEADER_SIZE + 0"
    "audioBuffer ?st1 = filled 0" "lastButtonState ?st1 = HIGH"
    using assms by (simp_all add: startRecording_def emit_def config)
  have room: "0 + 1024 \<le> MAX_AUDIO_BYTES" by (simp add: config)
  from capture_full_chunk_stores [OF s(1,2) room s(3)]
  obtain st2 where st2: "captureAudioChunk full_chunk ?st1 = Inr st2" "isRecording st2"
    "lastButtonState st2 = HIGH" "unat (audioBufferPos st2) = WAV_HEADER_SIZE + 1024"
    "audioBuffer st2 = filled 1024"
    using s(4) by auto
  show ?thesis
    using assms(1) s(1) st2 by (simp add: loop_def hold_def Let_def emit_def)
qed

lemma loop_hold_stores:
  assumes "isRecording st" and "lastButtonState st = LOW"
    and "unat (audioBufferPos st) = WAV_HEADER_SIZE + k" and "k + 1024 \<le> MAX_AUDIO_BYTES"
    and "audioBuffer st = filled k"
  shows "\<exists>st'. loop (hold n) st = Inr st' \<and> isRecording st' \<and> lastButtonState st' = LOW
           \<and> unat (audioBufferPos st') = WAV_HEADER_SIZE + (k + 1024)
           \<and> audioBuffer st' = filled (k + 1024)"
proof -
  from capture_full_chunk_stores [OF assms(1,3,4,5)]
  obtain st2 where st2: "captureAudioChunk full_chunk st = Inr st2" "isRecording st2"
    "lastButtonState st2 = LOW" "unat (audioBufferPos st2) = WAV_HEADER_SIZE + (k + 1024)"
    "audioBuffer st2 = filled (k + 1024)"
    using assms(2) by auto
  show ?thesis
    using assms(1,2) st2 by (simp add: loop_def hold_def Let_def emit_def)
qed

lemma run_hold_stores:
  assumes "isRecording st" and "lastButtonState st = LOW"
    and "unat (audioBufferPos st) = WAV_HEADER_SIZE + k"
    and "k + 1024 * j \<le> MAX_AUDIO_BYTES" and "audioBuffer st = filled k"
  shows "\<exists>st'. run (replicate j (hold n)) st = Inr st' \<and> isRecording st'
           \<and> lastButtonState st' = LOW
           \<and> unat (audioBufferPos st') = WAV_HEADER_SIZE + (k + 1024 * j)
           \<and> audioBuffer st' = filled (k + 1024 * j)"
  using assms
proof (induction j arbitrary: st k)
  case 0
  then show ?case by simp
next
  case (Suc j)
  have room: "k + 1024 \<le> MAX_AUDIO_BYTES" using Suc.prems(4) by simp
  from loop_hold_stores [OF Suc.prems(1,2,3) room Suc.prems(5), of n]
  obtain st1 where st1: "loop (hold n) st = Inr st1" "isRecording st1" "lastButtonState st1 = LOW"
    "unat (audioBufferPos st1) = WAV_HEADER_SIZE + (k + 1024)"
    "audioBuffer st1 = filled (k + 1024)"
    by blast
  have rest: "(k + 1024) + 1024 * j \<le> MAX_AUDIO_BYTES" using Suc.prems(4) by simp
  from Suc.IH [OF st1(2,3,4) rest st1(5)]
  obtain st' where st': "run (replicate j (hold n)) st1 = Inr st'" "isRecording st'"
    "lastButtonState st' = LOW"
    "unat (audioBufferPos st') = WAV_HEADER_SIZE + ((k + 1024) + 1024 * j)"
    "audioBuffer st' = filled ((k + 1024) + 1024 * j)"
    by blast
  have "(k + 1024) + 1024 * j = k + 1024 * Suc j" by simp
  with st1(1) st' show ?case by simp
qed

lemma declared_length_of_filled:
  "le32_at (buffer_bytes (filled k) WAV_HEADER_SIZE) 40 = 0"
  by (simp add: le32_at_def le32_def filled_def WAV_HEADER_SIZE_def)

text \<open>C3 on the code. The same press as above: 470 full reads, 481280 bytes, more
  than the 480000 the buffer takes behind the header. No call copies outside the
  allocation and the cursor ends at 479276, within \<open>BUFFER_SIZE\<close>: bytes 44 to 479275
  hold the 468 chunks that fitted and every other byte is as allocated. But
  \<open>stopRecording\<close> is never reached, so the length field at bytes 40-43 still reads 0,
  not the 479232 payload bytes that were stored.\<close>

theorem overfull_recording_header_not_finalised:
  "case run (replicate 470 (hold (online text_answer)) @ [release (online text_answer)])
          (initial (\<lambda>i. 0)) of
     Inl f \<Rightarrow> False
   | Inr st \<Rightarrow>
       unat (audioBufferPos st) = WAV_HEADER_SIZE + 468 * 1024
     \<and> unat (audioBufferPos st) \<le> BUFFER_SIZE
     \<and> audioBuffer st = filled (468 * 1024)
     \<and> le32_at (buffer_bytes (audioBuffer st) WAV_HEADER_SIZE) 40 = 0
     \<and> unat (audioBufferPos st) - WAV_HEADER_SIZE = 479232"
proof -
  let ?h = "hold (online text_answer)"
  let ?r = "release (online text_answer)"
  let ?st0 = "initial (\<lambda>i. 0)"
  have split: "replicate 470 ?h @ [?r] = [?h] @ replicate 467 ?h @ [?h] @ [?h] @ [?r]"
  proof -
    have "replicate 470 ?h = replicate (1 + 467 + 1 + 1) ?h" by simp
    also have "\<dots> = [?h] @ replicate 467 ?h @ [?h] @ [?h]"
      by (simp only: replicate_add) simp
    finally show ?thesis by simp
  qed
  have i: "lastButtonState ?st0 = HIGH" "audioBuffer ?st0 = filled 0"
    by (simp_all add: initial_def filled_nothing)
  from loop_press_stores [OF i, of "online text_answer"]
  obtain st1 where st1: "loop ?h ?st0 = Inr st1" "isRecording st1" "lastButtonState st1 = LOW"
    "unat (audioBufferPos st1) = WAV_HEADER_SIZE + 1024" "audioBuffer st1 = filled 1024"
    by blast
  have room: "1024 + 1024 * 467 \<le> MAX_AUDIO_BYTES" by (simp add: config)
  from run_hold_stores [OF st1(2,3,4) room st1(5), of "online text_answer"]
  obtain st2 where st2: "run (replicate 467 ?h) st1 = Inr st2" "isRecording st2"
    "lastButtonState st2 = LOW" "unat (audioBufferPos st2) = WAV_HEADER_SIZE + 468 * 1024"
    "audioBuffer st2 = filled (468 * 1024)"
    by auto
  have pos2: "unat (audioBufferPos st2) = 44 + 1024 * 468"
    using st2(4) by (simp add: config)
  define st3 where
    "st3 = st2\<lparr>isRecording := False, trace := trace st2 @ [Serial BufferFull, Led LOW, Delay 10]\<rparr>"
  have st3: "loop ?h st2 = Inr st3"
    unfolding st3_def by (rule loop_hold_full [OF st2(2,3) pos2])
  define st4 where "st4 = st3\<lparr>trace := trace st3 @ [Delay 10]\<rparr>"
  have st4: "loop ?h st3 = Inr st4"
    unfolding st4_def using st2(3) by (intro loop_hold_idle) (simp_all add: st3_def)
  define st5 where "st5 = emit (Delay 10) (st4\<lparr>lastButtonState := HIGH\<rparr>)"
  have st5: "loop ?r st4 = Inr st5"
    unfolding st5_def by (intro loop_release_idle) (simp_all add: release_def st4_def st3_def)
  have run: "run (replicate 470 ?h @ [?r]) ?st0 = Inr st5"
    unfolding split by (simp add: run_append st1(1) st2(1) st3 st4 st5)
  have same: "audioBuffer st5 = audioBuffer st2" "audioBufferPos st5 = audioBufferPos st2"
    by (simp_all add: st5_def st4_def st3_def emit_def)
  show ?thesis
    unfolding run
    by (simp add: same st2(4,5) declared_length_of_filled) (simp add: config)
qed

end
